theory Spec2Isabelle
  imports Main "HOL-Library.Sublist"
begin

section \<open>Values of the Python programs\<close>

text \<open>
  Python strings are modelled by \<^typ>\<open>string\<close>, read as the UTF-8 bytes of the text (a name
  that the file system holds and that is not valid UTF-8 keeps its bytes; Python holds such
  a name with lone surrogates, which \<^verbatim>\<open>str.encode\<close> refuses); every
  string operation the programs use (concatenation, \<^verbatim>\<open>startswith\<close>, \<^verbatim>\<open>endswith\<close>, \<^verbatim>\<open>in\<close>,
  \<^verbatim>\<open>split\<close>, \<^verbatim>\<open>replace\<close> with ASCII patterns) acts the same way on the bytes. Standard output
  is not modelled: the \<^verbatim>\<open>print\<close> calls only report progress. The one argument of a
  \<^verbatim>\<open>print\<close> that can raise, \<^verbatim>\<open>e.read().decode()\<close> in \<^verbatim>\<open>upload_file\<close>, is modelled there.
\<close>

datatype json =
    JNull
  | JBool bool
  | JNum int
  | JStr string
  | JArr "json list"
  | JObj "(string \<times> json) list"

text \<open>
  The exceptions that can travel through the programs. \<^verbatim>\<open>SystemExit\<close> is what \<^verbatim>\<open>sys.exit\<close>
  raises; it is not a subclass of \<^verbatim>\<open>Exception\<close>. An \<^verbatim>\<open>HTTPError\<close> carries its status code and
  its body as \<^verbatim>\<open>e.read().decode()\<close> gives it: \<open>None\<close> when the bytes are not valid UTF-8 and
  \<^verbatim>\<open>decode\<close> raises. \<open>OtherError\<close> stands for every other exception of \<^verbatim>\<open>urlopen\<close> and
  \<^verbatim>\<open>json.load\<close> (\<^verbatim>\<open>URLError\<close>, a time-out, a body that is not JSON).
\<close>

datatype exc =
    SystemExit nat
  | HTTPError nat "string option"
  | OtherError
  | KeyError
  | TypeError
  | AttributeError
  | ValueError
  | OSError
  | EOFError
  | UnicodeDecodeError
  | UnicodeEncodeError

text \<open>\<^verbatim>\<open>r[k]\<close> on a value that \<^verbatim>\<open>json.load\<close> returned.\<close>

fun subscript :: "json \<Rightarrow> string \<Rightarrow> exc + json" where
  "subscript (JObj kvs) k = (case map_of kvs k of None \<Rightarrow> Inl KeyError | Some v \<Rightarrow> Inr v)"
| "subscript _ k = Inl TypeError"

text \<open>\<^verbatim>\<open>r.get(k, default)\<close>: only a dict has the method.\<close>

fun dict_get :: "json \<Rightarrow> string \<Rightarrow> json \<Rightarrow> exc + json" where
  "dict_get (JObj kvs) k dflt = (case map_of kvs k of None \<Rightarrow> Inr dflt | Some v \<Rightarrow> Inr v)"
| "dict_get _ k dflt = Inl AttributeError"

text \<open>Truth value of a value in \<^verbatim>\<open>if sha:\<close>.\<close>

fun truthy :: "json \<Rightarrow> bool" where
  "truthy JNull = False"
| "truthy (JBool b) = b"
| "truthy (JNum n) = (n \<noteq> 0)"
| "truthy (JStr s) = (s \<noteq> [])"
| "truthy (JArr xs) = (xs \<noteq> [])"
| "truthy (JObj kvs) = (kvs \<noteq> [])"

subsection \<open>String operations\<close>

definition startswith :: "string \<Rightarrow> string \<Rightarrow> bool" where
  "startswith s p = prefix p s"

definition endswith :: "string \<Rightarrow> string \<Rightarrow> bool" where
  "endswith s p = suffix p s"

text \<open>\<^verbatim>\<open>p in s\<close> for strings.\<close>

definition contains :: "string \<Rightarrow> string \<Rightarrow> bool" where
  "contains s p = sublist p s"

text \<open>\<^verbatim>\<open>s.split(c)\<close> for a separator of one character.\<close>

fun split :: "char \<Rightarrow> string \<Rightarrow> string list" where
  "split c [] = [[]]"
| "split c (x # xs) =
     (if x = c then [] # split c xs
      else (case split c xs of w # ws \<Rightarrow> (x # w) # ws | [] \<Rightarrow> [[x]]))"

definition backslash :: char where
  "backslash = CHR 0x5C"

text \<open>\<^verbatim>\<open>s.replace('\\', '/')\<close>.\<close>

definition replace_backslash :: "string \<Rightarrow> string" where
  "replace_backslash s = map (\<lambda>c. if c = backslash then CHR ''/'' else c) s"

text \<open>\<^verbatim>\<open>sep.join(xs)\<close>.\<close>

fun str_join :: "string \<Rightarrow> string list \<Rightarrow> string" where
  "str_join sep [] = []"
| "str_join sep [x] = x"
| "str_join sep (x # y # ys) = x @ sep @ str_join sep (y # ys)"

subsection \<open>\<^verbatim>\<open>base64.b64encode\<close> and \<^verbatim>\<open>urllib.parse.quote\<close>\<close>

definition b64char :: "nat \<Rightarrow> char" where
  "b64char n =
     ''ABCDEFGHIJKLMNOPQRSTUVWXYZabcdefghijklmnopqrstuvwxyz0123456789+/'' ! (n mod 64)"

text \<open>Three bytes give four groups of six bits; a short last block is padded.\<close>

fun b64encode :: "string \<Rightarrow> string" where
  "b64encode (a # b # c # rest) =
     b64char (of_char a div 4)
     # b64char ((of_char a mod 4) * 16 + of_char b div 16)
     # b64char ((of_char b mod 16) * 4 + of_char c div 64)
     # b64char (of_char c mod 64)
     # b64encode rest"
| "b64encode [a, b] =
     [b64char (of_char a div 4),
      b64char ((of_char a mod 4) * 16 + of_char b div 16),
      b64char ((of_char b mod 16) * 4),
      CHR ''='']"
| "b64encode [a] =
     [b64char (of_char a div 4), b64char ((of_char a mod 4) * 16), CHR ''='', CHR ''='']"
| "b64encode [] = []"

definition hexdigit :: "nat \<Rightarrow> char" where
  "hexdigit n = ''0123456789ABCDEF'' ! (n mod 16)"

text \<open>The characters \<^verbatim>\<open>quote\<close> never escapes, and its default \<^verbatim>\<open>safe='/'\<close>.\<close>

definition quote_safe :: "char \<Rightarrow> bool" where
  "quote_safe c =
     (c \<in> set ''ABCDEFGHIJKLMNOPQRSTUVWXYZabcdefghijklmnopqrstuvwxyz0123456789_.-~/'')"

definition percent_encode :: "string \<Rightarrow> string" where
  "percent_encode s =
     concat (map (\<lambda>c. if quote_safe c then [c]
                      else [CHR ''%'', hexdigit (of_char c div 16), hexdigit (of_char c)]) s)"

text \<open>
  Well-formed UTF-8, as the strict codec of Python takes it: no overlong form, no
  surrogate, nothing above U+10FFFF. \<open>utf8_from k lo hi s\<close> reads \<open>s\<close> when \<open>k\<close> continuation
  bytes are still due and the next of them has to lie between \<open>lo\<close> and \<open>hi\<close>.
\<close>

fun utf8_from :: "nat \<Rightarrow> nat \<Rightarrow> nat \<Rightarrow> string \<Rightarrow> bool" where
  "utf8_from 0 lo hi [] = True"
| "utf8_from (Suc k) lo hi [] = False"
| "utf8_from 0 lo hi (a # s) =
     (let n = (of_char a :: nat) in
      if n < 128 then utf8_from 0 128 191 s
      else if 194 \<le> n \<and> n \<le> 223 then utf8_from 1 128 191 s
      else if n = 224 then utf8_from 2 160 191 s
      else if (225 \<le> n \<and> n \<le> 236) \<or> n = 238 \<or> n = 239 then utf8_from 2 128 191 s
      else if n = 237 then utf8_from 2 128 159 s
      else if n = 240 then utf8_from 3 144 191 s
      else if 241 \<le> n \<and> n \<le> 243 then utf8_from 3 128 191 s
      else if n = 244 then utf8_from 3 128 143 s
      else False)"
| "utf8_from (Suc k) lo hi (a # s) =
     (lo \<le> (of_char a :: nat) \<and> (of_char a :: nat) \<le> hi \<and> utf8_from k 128 191 s)"

definition utf8_valid :: "string \<Rightarrow> bool" where
  "utf8_valid s = utf8_from 0 128 191 s"

text \<open>
  \<^verbatim>\<open>quote(s)\<close> encodes the string as UTF-8 first, which raises \<^verbatim>\<open>UnicodeEncodeError\<close> for a
  name that is not valid UTF-8, and then escapes the bytes.
\<close>

definition quote :: "string \<Rightarrow> exc + string" where
  "quote s = (if utf8_valid s then Inr (percent_encode s) else Inl UnicodeEncodeError)"

section \<open>The host: path library and directory tree\<close>

text \<open>
  \<^verbatim>\<open>os.sep\<close>, \<^verbatim>\<open>os.path.join\<close> and \<^verbatim>\<open>os.path.relpath\<close> depend on the host the script runs
  on, so the script is modelled over a record of the three. \<^verbatim>\<open>relpath\<close> gives \<open>None\<close>
  when it raises \<^verbatim>\<open>ValueError\<close>.
\<close>

record host =
  sep :: char
  path_join :: "string \<Rightarrow> string \<Rightarrow> string"
  relpath :: "string \<Rightarrow> string \<Rightarrow> string option"

subsection \<open>\<^verbatim>\<open>posixpath\<close>\<close>

definition posix_join :: "string \<Rightarrow> string \<Rightarrow> string" where
  "posix_join a b =
     (if startswith b ''/'' then b
      else if a = [] \<or> endswith a ''/'' then a @ b
      else a @ ''/'' @ b)"

text \<open>One round of the loop of \<^verbatim>\<open>normpath\<close> over the components.\<close>

definition norm_step :: "nat \<Rightarrow> string list \<Rightarrow> string \<Rightarrow> string list" where
  "norm_step initial_slashes new_comps cmp =
     (if cmp = [] \<or> cmp = ''.'' then new_comps
      else if cmp \<noteq> ''..'' \<or> (initial_slashes = 0 \<and> new_comps = [])
              \<or> (new_comps \<noteq> [] \<and> last new_comps = ''..'')
           then new_comps @ [cmp]
      else if new_comps \<noteq> [] then butlast new_comps
      else new_comps)"

definition posix_normpath :: "string \<Rightarrow> string" where
  "posix_normpath path =
     (if path = [] then ''.''
      else
        let initial_slashes =
              (if startswith path ''/''
               then (if startswith path ''//'' \<and> \<not> startswith path ''///'' then 2 else 1)
               else (0::nat));
            comps = foldl (norm_step initial_slashes) [] (split CHR ''/'' path);
            path' = replicate initial_slashes CHR ''/'' @ str_join ''/'' comps
        in if path' = [] then ''.'' else path')"

definition posix_abspath :: "string \<Rightarrow> string \<Rightarrow> string" where
  "posix_abspath cwd path =
     posix_normpath (if \<not> startswith path ''/'' then posix_join cwd path else path)"

definition posix_relpath :: "string \<Rightarrow> string \<Rightarrow> string \<Rightarrow> string option" where
  "posix_relpath cwd path start =
     (if path = [] then None
      else
        let start_list = filter (\<lambda>x. x \<noteq> []) (split CHR ''/'' (posix_abspath cwd start));
            path_list = filter (\<lambda>x. x \<noteq> []) (split CHR ''/'' (posix_abspath cwd path));
            i = length (longest_common_prefix start_list path_list);
            rel_list = replicate (length start_list - i) ''..'' @ drop i path_list
        in if rel_list = [] then Some ''.''
           else Some (foldl posix_join (hd rel_list) (tl rel_list)))"

text \<open>A POSIX host whose current directory is \<open>cwd\<close> (\<^verbatim>\<open>os.getcwd()\<close>, an absolute path).\<close>

definition posix :: "string \<Rightarrow> host" where
  "posix cwd = \<lparr> sep = CHR ''/'', path_join = posix_join, relpath = posix_relpath cwd \<rparr>"

subsection \<open>\<^verbatim>\<open>os.walk\<close>\<close>

text \<open>
  A directory lists its entries in the order \<^verbatim>\<open>scandir\<close> returns them. Symbolic links
  are left out of the model.
\<close>

datatype fsnode = File | Dir "(string \<times> fsnode) list"

fun is_dir :: "fsnode \<Rightarrow> bool" where
  "is_dir (Dir es) = True"
| "is_dir File = False"

text \<open>
  \<^verbatim>\<open>os.walk(top)\<close>, top-down: the triple of the directory itself, then the walks of its
  subdirectories in order. A top that is not a directory yields nothing (\<^verbatim>\<open>onerror\<close> is
  not set, so the error of \<^verbatim>\<open>scandir\<close> is dropped).
\<close>

fun walk :: "host \<Rightarrow> string \<Rightarrow> fsnode \<Rightarrow> (string \<times> string list \<times> string list) list" where
  "walk h dir File = []"
| "walk h dir (Dir es) =
     (dir, map fst (filter (\<lambda>e. is_dir (snd e)) es), map fst (filter (\<lambda>e. \<not> is_dir (snd e)) es))
     # concat (map (\<lambda>e. walk h (path_join h dir (fst e)) (snd e)) es)"

section \<open>The uploader: discovery\<close>

text \<open>The inner loop of \<^verbatim>\<open>main\<close> over the file names of one directory.\<close>

fun scan_names :: "host \<Rightarrow> string \<Rightarrow> string \<Rightarrow> string list \<Rightarrow> exc + (string \<times> string) list" where
  "scan_names h source_dir root [] = Inr []"
| "scan_names h source_dir root (fn # fns) =
     (if endswith fn ''.zip'' then scan_names h source_dir root fns
      else
        let full = path_join h root fn in
        case relpath h full source_dir of
          None \<Rightarrow> Inl ValueError
        | Some rel \<Rightarrow>
            (case scan_names h source_dir root fns of
               Inl e \<Rightarrow> Inl e
             | Inr files \<Rightarrow> Inr ((full, replace_backslash rel) # files)))"

text \<open>The two tests of \<^verbatim>\<open>main\<close> that skip a directory.\<close>

definition skipped :: "host \<Rightarrow> string \<Rightarrow> bool" where
  "skipped h root =
     (''.git'' \<in> set (split (sep h) root)
      \<or> (startswith root ''./.git'' \<or> contains root ''/.git''))"

text \<open>The outer loop of \<^verbatim>\<open>main\<close> over the triples of \<^verbatim>\<open>os.walk\<close>.\<close>

fun scan_walk :: "host \<Rightarrow> string \<Rightarrow> (string \<times> string list \<times> string list) list
                  \<Rightarrow> exc + (string \<times> string) list" where
  "scan_walk h source_dir [] = Inr []"
| "scan_walk h source_dir ((root, dirs, filenames) # rest) =
     (if ''.git'' \<in> set (split (sep h) root) then scan_walk h source_dir rest
      else if startswith root ''./.git'' \<or> contains root ''/.git''
        then scan_walk h source_dir rest
      else
        case scan_names h source_dir root filenames of
          Inl e \<Rightarrow> Inl e
        | Inr files \<Rightarrow>
            (case scan_walk h source_dir rest of
               Inl e \<Rightarrow> Inl e
             | Inr others \<Rightarrow> Inr (files @ others)))"

text \<open>
  Lines 101 to 115 of \<^verbatim>\<open>main\<close>: the list \<^verbatim>\<open>files\<close> of pairs (path on disk, relative path),
  for the tree found at \<^verbatim>\<open>SOURCE_DIR\<close>.
\<close>

definition discover_files :: "host \<Rightarrow> string \<Rightarrow> fsnode \<Rightarrow> exc + (string \<times> string) list" where
  "discover_files h source_dir tree = scan_walk h source_dir (walk h source_dir tree)"

section \<open>The uploader: remote calls\<close>

datatype http_method = GET | POST | PUT

record request =
  meth :: http_method
  url :: string
  headers :: "(string \<times> string) list"
  body :: "json option"

text \<open>
  What \<^verbatim>\<open>json.load(urlopen(req))\<close> does: it returns the parsed body of a 2xx response,
  raises \<^verbatim>\<open>HTTPError\<close> for any other status, or raises something else.
\<close>

datatype response = Body json | HttpFail nat "string option" | OtherFail

text \<open>
  The remote store is any state machine answering requests. A run threads the state of
  the store and the log of the calls made so far.
\<close>

type_synonym 'r remote = "'r \<Rightarrow> request \<Rightarrow> response \<times> 'r"

type_synonym 'r run_state = "'r \<times> (request \<times> response) list"

record config =
  GITHUB_TOKEN :: string
  REPO :: string
  BRANCH :: string
  BASE_BRANCH :: string
  SOURCE_DIR :: string
  COMMIT_PREFIX :: string

definition API_BASE :: string where
  "API_BASE = ''https://api.github.com''"

definition std_headers :: "config \<Rightarrow> (string \<times> string) list" where
  "std_headers cfg =
     [(''Authorization'', ''token '' @ GITHUB_TOKEN cfg),
      (''User-Agent'', ''webssh-verifier-uploader''),
      (''Accept'', ''application/vnd.github+json'')]"

definition urlopen_json :: "'r remote \<Rightarrow> request \<Rightarrow> 'r run_state \<Rightarrow> (exc + json) \<times> 'r run_state" where
  "urlopen_json rem rq st =
     (case rem (fst st) rq of
        (rs, s') \<Rightarrow>
          ((case rs of
              Body j \<Rightarrow> Inr j
            | HttpFail code txt \<Rightarrow> Inl (HTTPError code txt)
            | OtherFail \<Rightarrow> Inl OtherError),
           (s', snd st @ [(rq, rs)])))"

text \<open>\<^verbatim>\<open>api_get\<close> returns the \<^verbatim>\<open>HTTPError\<close> it caught as a value; other exceptions pass.\<close>

datatype returned = Parsed json | ErrorObject nat "string option"

definition get_request :: "config \<Rightarrow> string \<Rightarrow> request" where
  "get_request cfg path =
     \<lparr> meth = GET, url = API_BASE @ path, headers = std_headers cfg, body = None \<rparr>"

definition post_request :: "config \<Rightarrow> string \<Rightarrow> json \<Rightarrow> request" where
  "post_request cfg path data =
     \<lparr> meth = POST, url = API_BASE @ path,
       headers = std_headers cfg @ [(''Content-Type'', ''application/json'')], body = Some data \<rparr>"

definition put_request :: "config \<Rightarrow> string \<Rightarrow> json \<Rightarrow> request" where
  "put_request cfg path data =
     \<lparr> meth = PUT, url = API_BASE @ path,
       headers = std_headers cfg @ [(''Content-Type'', ''application/json'')], body = Some data \<rparr>"

definition api_get :: "config \<Rightarrow> 'r remote \<Rightarrow> string \<Rightarrow> 'r run_state \<Rightarrow> (exc + returned) \<times> 'r run_state" where
  "api_get cfg rem path st =
     (case urlopen_json rem (get_request cfg path) st of
        (Inr j, st') \<Rightarrow> (Inr (Parsed j), st')
      | (Inl (HTTPError code txt), st') \<Rightarrow> (Inr (ErrorObject code txt), st')
      | (Inl e, st') \<Rightarrow> (Inl e, st'))"

definition api_post :: "config \<Rightarrow> 'r remote \<Rightarrow> string \<Rightarrow> json \<Rightarrow> 'r run_state \<Rightarrow> (exc + json) \<times> 'r run_state" where
  "api_post cfg rem path data st = urlopen_json rem (post_request cfg path data) st"

definition api_put :: "config \<Rightarrow> 'r remote \<Rightarrow> string \<Rightarrow> json \<Rightarrow> 'r run_state \<Rightarrow> (exc + json) \<times> 'r run_state" where
  "api_put cfg rem path data st = urlopen_json rem (put_request cfg path data) st"

section \<open>The uploader: \<^verbatim>\<open>ensure_branch\<close>\<close>

text \<open>
  The source returns \<^verbatim>\<open>None\<close> from both of its return points; the model tells them apart
  by the message printed there: \<open>AlreadyExists\<close> for \<^verbatim>\<open>Branch already exists.\<close> and
  \<open>Created\<close> for \<^verbatim>\<open>Branch created.\<close>
\<close>

datatype branch_state = AlreadyExists | Created

definition base_ref_path :: "config \<Rightarrow> string" where
  "base_ref_path cfg = ''/repos/'' @ REPO cfg @ ''/git/ref/heads/'' @ BASE_BRANCH cfg"

definition branch_ref_path :: "config \<Rightarrow> string" where
  "branch_ref_path cfg = ''/repos/'' @ REPO cfg @ ''/git/ref/heads/'' @ BRANCH cfg"

definition refs_path :: "config \<Rightarrow> string" where
  "refs_path cfg = ''/repos/'' @ REPO cfg @ ''/git/refs''"

definition branch_payload :: "config \<Rightarrow> json \<Rightarrow> json" where
  "branch_payload cfg base_sha =
     JObj [(''ref'', JStr (''refs/heads/'' @ BRANCH cfg)), (''sha'', base_sha)]"

text \<open>\<^verbatim>\<open>r['object']['sha']\<close>.\<close>

definition object_sha :: "json \<Rightarrow> exc + json" where
  "object_sha r = (case subscript r ''object'' of Inl e \<Rightarrow> Inl e | Inr ob \<Rightarrow> subscript ob ''sha'')"

definition ensure_branch :: "config \<Rightarrow> 'r remote \<Rightarrow> 'r run_state \<Rightarrow> (exc + branch_state) \<times> 'r run_state" where
  "ensure_branch cfg rem st =
     (case api_get cfg rem (base_ref_path cfg) st of
        (Inl e, st1) \<Rightarrow> (Inl e, st1)
      | (Inr (ErrorObject code txt), st1) \<Rightarrow> (Inl (SystemExit 3), st1)
      | (Inr (Parsed r), st1) \<Rightarrow>
          (case object_sha r of
             Inl e \<Rightarrow> (Inl e, st1)
           | Inr base_sha \<Rightarrow>
               (case api_get cfg rem (branch_ref_path cfg) st1 of
                  (Inl e, st2) \<Rightarrow> (Inl e, st2)
                | (Inr (Parsed existing), st2) \<Rightarrow> (Inr AlreadyExists, st2)
                | (Inr (ErrorObject code txt), st2) \<Rightarrow>
                    (case api_post cfg rem (refs_path cfg) (branch_payload cfg base_sha) st2 of
                       (Inr res, st3) \<Rightarrow> (Inr Created, st3)
                     | (Inl e, st3) \<Rightarrow> (Inl (SystemExit 4), st3)))))"

section \<open>The uploader: \<^verbatim>\<open>upload_file\<close> and \<^verbatim>\<open>main\<close>\<close>

text \<open>The path of the contents call; \<open>quoted\<close> is what \<^verbatim>\<open>quote(relpath)\<close> returned.\<close>

definition contents_path :: "config \<Rightarrow> string \<Rightarrow> string" where
  "contents_path cfg quoted = ''/repos/'' @ REPO cfg @ ''/contents/'' @ quoted"

definition commit_message :: "config \<Rightarrow> string \<Rightarrow> string" where
  "commit_message cfg rel = COMMIT_PREFIX cfg @ '' add '' @ rel"

definition query_path :: "config \<Rightarrow> string \<Rightarrow> string" where
  "query_path cfg quoted = contents_path cfg quoted @ ''?ref='' @ BRANCH cfg"

text \<open>The payload of the PUT; \<open>sha\<close> is the value the first \<^verbatim>\<open>try\<close> block left.\<close>

definition upload_payload :: "config \<Rightarrow> string \<Rightarrow> string \<Rightarrow> json \<Rightarrow> json" where
  "upload_payload cfg rel content_b64 sha =
     JObj ([(''message'', JStr (commit_message cfg rel)),
            (''content'', JStr content_b64),
            (''branch'', JStr (BRANCH cfg))]
           @ (if truthy sha then [(''sha'', sha)] else []))"

text \<open>
  The first \<^verbatim>\<open>try\<close> block of \<^verbatim>\<open>upload_file\<close>: every exception, the \<^verbatim>\<open>not found\<close> it raises
  itself and the error of \<^verbatim>\<open>quote\<close> included, ends in \<^verbatim>\<open>sha = None\<close>. When \<^verbatim>\<open>quote\<close> raises, no
  call is made.
\<close>

definition existing_sha :: "config \<Rightarrow> 'r remote \<Rightarrow> string \<Rightarrow> 'r run_state \<Rightarrow> json \<times> 'r run_state" where
  "existing_sha cfg rem rel st =
     (case quote rel of
        Inl e \<Rightarrow> (JNull, st)
      | Inr quoted \<Rightarrow>
          (case api_get cfg rem (query_path cfg quoted) st of
             (Inl e, st1) \<Rightarrow> (JNull, st1)
           | (Inr (ErrorObject code txt), st1) \<Rightarrow> (JNull, st1)
           | (Inr (Parsed existing), st1) \<Rightarrow>
               (case dict_get existing ''sha'' JNull of
                  Inl e \<Rightarrow> (JNull, st1)
                | Inr v \<Rightarrow> (v, st1))))"

text \<open>
  \<open>open_rb\<close> is \<^verbatim>\<open>open(path, 'rb').read()\<close>: \<open>None\<close> when it raises \<^verbatim>\<open>OSError\<close>. In the second
  \<^verbatim>\<open>try\<close> block only \<^verbatim>\<open>HTTPError\<close> is caught, so the error of \<^verbatim>\<open>quote\<close> passes and no PUT is
  made. In the handler of the PUT, \<^verbatim>\<open>e.read().decode()\<close> raises before \<^verbatim>\<open>sys.exit(5)\<close> is
  reached when the body is not valid UTF-8.
\<close>

definition upload_file :: "config \<Rightarrow> (string \<Rightarrow> string option) \<Rightarrow> 'r remote \<Rightarrow> string \<times> string
                           \<Rightarrow> 'r run_state \<Rightarrow> (exc + unit) \<times> 'r run_state" where
  "upload_file cfg open_rb rem file st =
     (case file of (path_on_disk, rel) \<Rightarrow>
        (case open_rb path_on_disk of
           None \<Rightarrow> (Inl OSError, st)
         | Some content \<Rightarrow>
             (case existing_sha cfg rem rel st of
                (sha, st1) \<Rightarrow>
                  (case quote rel of
                     Inl e \<Rightarrow> (Inl e, st1)
                   | Inr quoted \<Rightarrow>
                       (case api_put cfg rem (contents_path cfg quoted)
                               (upload_payload cfg rel (b64encode content) sha) st1 of
                          (Inr res, st2) \<Rightarrow> (Inr (), st2)
                        | (Inl (HTTPError code txt), st2) \<Rightarrow>
                            (case txt of
                               None \<Rightarrow> (Inl UnicodeDecodeError, st2)
                             | Some t \<Rightarrow> (Inl (SystemExit 5), st2))
                        | (Inl e, st2) \<Rightarrow> (Inl e, st2))))))"

text \<open>The loop \<^verbatim>\<open>for full, rel in files: upload_file(full, rel)\<close>.\<close>

fun upload_all :: "config \<Rightarrow> (string \<Rightarrow> string option) \<Rightarrow> 'r remote \<Rightarrow> (string \<times> string) list
                   \<Rightarrow> 'r run_state \<Rightarrow> (exc + unit) \<times> 'r run_state" where
  "upload_all cfg open_rb rem [] st = (Inr (), st)"
| "upload_all cfg open_rb rem (file # files) st =
     (case upload_file cfg open_rb rem file st of
        (Inl e, st1) \<Rightarrow> (Inl e, st1)
      | (Inr u, st1) \<Rightarrow> upload_all cfg open_rb rem files st1)"

definition main :: "config \<Rightarrow> host \<Rightarrow> fsnode \<Rightarrow> (string \<Rightarrow> string option) \<Rightarrow> 'r remote
                    \<Rightarrow> 'r run_state \<Rightarrow> (exc + unit) \<times> 'r run_state" where
  "main cfg h tree open_rb rem st =
     (case ensure_branch cfg rem st of
        (Inl e, st1) \<Rightarrow> (Inl e, st1)
      | (Inr b, st1) \<Rightarrow>
          (case discover_files h (SOURCE_DIR cfg) tree of
             Inl e \<Rightarrow> (Inl e, st1)
           | Inr files \<Rightarrow> upload_all cfg open_rb rem files st1))"

section \<open>The uploader: the script as a process\<close>

text \<open>
  Everything the script reads from outside: the environment, the answer typed at the
  \<^verbatim>\<open>Repo (owner/repo):\<close> prompt (already stripped; \<open>None\<close> when \<^verbatim>\<open>input\<close> raises
  \<^verbatim>\<open>EOFError\<close>), the host, the tree found at \<^verbatim>\<open>SOURCE_DIR\<close>, the contents of files, and the
  remote store with its initial state.
\<close>

record 'r world =
  environ :: "string \<Rightarrow> string option"
  stdin_answer :: "string option"
  os_host :: host
  source_tree :: fsnode
  file_bytes :: "string \<Rightarrow> string option"
  remote_api :: "'r remote"
  remote_start :: 'r

text \<open>\<^verbatim>\<open>os.environ.get(name) or dflt\<close>.\<close>

definition env_or :: "(string \<Rightarrow> string option) \<Rightarrow> string \<Rightarrow> string \<Rightarrow> string" where
  "env_or env name dflt = (case env name of None \<Rightarrow> dflt | Some v \<Rightarrow> if v = [] then dflt else v)"

text \<open>The module level of the script, up to the call of \<^verbatim>\<open>main\<close>.\<close>

definition read_config :: "'r world \<Rightarrow> exc + config" where
  "read_config w =
     (case environ w ''GITHUB_TOKEN'' of
        None \<Rightarrow> Inl (SystemExit 2)
      | Some token \<Rightarrow>
          if token = [] then Inl (SystemExit 2)
          else
            (case (case environ w ''REPO'' of
                     None \<Rightarrow> stdin_answer w
                   | Some v \<Rightarrow> if v = [] then stdin_answer w else Some v) of
               None \<Rightarrow> Inl EOFError
             | Some repo \<Rightarrow>
                 Inr \<lparr> GITHUB_TOKEN = token,
                       REPO = repo,
                       BRANCH = env_or (environ w) ''BRANCH'' ''feature/webssh-verifier'',
                       BASE_BRANCH = env_or (environ w) ''BASE_BRANCH'' ''main'',
                       SOURCE_DIR = env_or (environ w) ''SOURCE_DIR'' ''.'',
                       COMMIT_PREFIX = env_or (environ w) ''COMMIT_PREFIX'' ''chore(verifier):'' \<rparr>))"

text \<open>A run of the script: how it ended and the remote calls it made, in order.\<close>

definition script :: "'r world \<Rightarrow> (exc + unit) \<times> (request \<times> response) list" where
  "script w =
     (case read_config w of
        Inl e \<Rightarrow> (Inl e, [])
      | Inr cfg \<Rightarrow>
          (case main cfg (os_host w) (source_tree w) (file_bytes w) (remote_api w)
                  (remote_start w, []) of
             (res, st) \<Rightarrow> (res, snd st)))"

text \<open>
  The exit status of the process: the argument of \<^verbatim>\<open>sys.exit\<close>, 1 for an uncaught
  exception, 0 when the script runs to its end.
\<close>

fun exit_status :: "exc + unit \<Rightarrow> nat" where
  "exit_status (Inr u) = 0"
| "exit_status (Inl (SystemExit n)) = n"
| "exit_status (Inl e) = 1"

section \<open>The memory service\<close>

text \<open>
  What the handler of \<^verbatim>\<open>GET /memory/{key}\<close> gives back to the framework: a value to send
  with status 200, an \<^verbatim>\<open>HTTPException\<close>, or another exception, which the framework turns
  into status 500.
\<close>

datatype handler_result = Return json | HTTPException nat string | Uncaught exc

text \<open>
  The file at \<^verbatim>\<open>MEMORY_PATH\<close>: \<open>None\<close> when \<^verbatim>\<open>os.path.exists\<close> is false, else what
  \<^verbatim>\<open>json.load(open(...))\<close> does with it.
\<close>

definition get_memory :: "(exc + json) option \<Rightarrow> string \<Rightarrow> handler_result" where
  "get_memory memory_file key =
     (case memory_file of
        None \<Rightarrow> HTTPException 404 ''Memory file not found''
      | Some (Inl e) \<Rightarrow> Uncaught e
      | Some (Inr memory) \<Rightarrow>
          (case dict_get memory key (JStr ''Not Found'') of
             Inl e \<Rightarrow> Uncaught e
           | Inr v \<Rightarrow> Return (JObj [(''value'', v)])))"

section \<open>Observations on runs\<close>

text \<open>The write calls in a log, and the calls that create a branch.\<close>

definition puts :: "(request \<times> response) list \<Rightarrow> (request \<times> response) list" where
  "puts tr = filter (\<lambda>e. meth (fst e) = PUT) tr"

definition posts :: "(request \<times> response) list \<Rightarrow> (request \<times> response) list" where
  "posts tr = filter (\<lambda>e. meth (fst e) = POST) tr"

fun is_body :: "response \<Rightarrow> bool" where
  "is_body (Body j) = True"
| "is_body r = False"

fun is_http_fail :: "response \<Rightarrow> bool" where
  "is_http_fail (HttpFail code txt) = True"
| "is_http_fail r = False"

text \<open>A field of the JSON object a request carries, if it has one.\<close>

definition request_field :: "request \<Rightarrow> string \<Rightarrow> json option" where
  "request_field rq k =
     (case body rq of
        None \<Rightarrow> None
      | Some data \<Rightarrow> (case subscript data k of Inl e \<Rightarrow> None | Inr v \<Rightarrow> Some v))"

text \<open>How \<^verbatim>\<open>upload_file\<close> ends, from the answer to its PUT.\<close>

fun put_outcome :: "response \<Rightarrow> exc + unit" where
  "put_outcome (Body j) = Inr ()"
| "put_outcome (HttpFail code None) = Inl UnicodeDecodeError"
| "put_outcome (HttpFail code (Some t)) = Inl (SystemExit 5)"
| "put_outcome OtherFail = Inl OtherError"

text \<open>The address of the PUT for a discovered file.\<close>

definition put_url :: "config \<Rightarrow> string \<times> string \<Rightarrow> string" where
  "put_url cfg file = API_BASE @ contents_path cfg (percent_encode (snd file))"

text \<open>
  A store that keeps its refs: reading changes no answer to a later read, and once the
  store has accepted the creation of the target branch it finds that branch, and answers
  for the base branch as before.
\<close>

definition keeps_refs :: "config \<Rightarrow> 'r remote \<Rightarrow> bool" where
  "keeps_refs cfg rem =
     ((\<forall>s rq rq'. meth rq = GET \<and> meth rq' = GET
          \<longrightarrow> fst (rem (snd (rem s rq)) rq') = fst (rem s rq'))
      \<and> (\<forall>s sha j s'. rem s (post_request cfg (refs_path cfg) (branch_payload cfg sha)) = (Body j, s')
          \<longrightarrow> is_body (fst (rem s' (get_request cfg (branch_ref_path cfg))))
              \<and> fst (rem s' (get_request cfg (base_ref_path cfg)))
                  = fst (rem s (get_request cfg (base_ref_path cfg)))))"

text \<open>
  The fatal conditions of a run, read from the world and from the log of its calls: no
  token in the environment; the first call, the GET of the base ref, answered with an HTTP
  error; a POST not answered with a body; a PUT answered with an HTTP error.
\<close>

definition credential_missing :: "'r world \<Rightarrow> bool" where
  "credential_missing w =
     (environ w ''GITHUB_TOKEN'' = None \<or> environ w ''GITHUB_TOKEN'' = Some [])"

definition base_http_error :: "(request \<times> response) list \<Rightarrow> bool" where
  "base_http_error tr = (tr \<noteq> [] \<and> is_http_fail (snd (hd tr)))"

text \<open>
  The base branch is resolved when the first call, the GET of the base ref, is answered
  with an object that holds \<^verbatim>\<open>object.sha\<close>. It is unresolved when that call got any other
  answer, or none: the branch is absent or cannot be reached.
\<close>

fun resolves :: "response \<Rightarrow> bool" where
  "resolves (Body r) = (case object_sha r of Inl e \<Rightarrow> False | Inr sha \<Rightarrow> True)"
| "resolves r = False"

definition base_unresolved :: "(request \<times> response) list \<Rightarrow> bool" where
  "base_unresolved tr = (tr \<noteq> [] \<and> \<not> resolves (snd (hd tr)))"

definition creation_failed :: "(request \<times> response) list \<Rightarrow> bool" where
  "creation_failed tr = (\<exists>e \<in> set tr. meth (fst e) = POST \<and> \<not> is_body (snd e))"



section \<open>Files of a tree\<close>

text \<open>
  The names a file system gives to the entries of a directory are not empty and hold no
  slash.
\<close>

definition valid_name :: "string \<Rightarrow> bool" where
  "valid_name n = (n \<noteq> [] \<and> CHR ''/'' \<notin> set n)"

fun valid_tree :: "fsnode \<Rightarrow> bool" where
  "valid_tree File = True"
| "valid_tree (Dir es) = (\<forall>e \<in> set es. valid_name (fst e) \<and> valid_tree (snd e))"

text \<open>
  A plain name is, besides, neither \<^verbatim>\<open>.\<close> nor \<^verbatim>\<open>..\<close>: the two entries no directory lists
  (\<^verbatim>\<open>scandir\<close> leaves them out).
\<close>

definition plain_name :: "string \<Rightarrow> bool" where
  "plain_name n = (valid_name n \<and> n \<noteq> ''.'' \<and> n \<noteq> ''..'')"

fun plain_tree :: "fsnode \<Rightarrow> bool" where
  "plain_tree File = True"
| "plain_tree (Dir es) = (\<forall>e \<in> set es. plain_name (fst e) \<and> plain_tree (snd e))"

text \<open>
  Three notions for the proofs about \<^verbatim>\<open>posixpath\<close>: the number of slashes \<^verbatim>\<open>normpath\<close> keeps
  at the front of an absolute path, a directory written with its closing slash, and the
  path \<^verbatim>\<open>abspath\<close> hands to \<^verbatim>\<open>normpath\<close>.
\<close>

definition slashes :: "string \<Rightarrow> nat" where
  "slashes p = (if startswith p ''//'' \<and> \<not> startswith p ''///'' then 2 else 1)"

definition closed :: "string \<Rightarrow> string" where
  "closed a = (if a = [] \<or> last a = CHR ''/'' then a else a @ ''/'')"

definition absolute :: "string \<Rightarrow> string \<Rightarrow> string" where
  "absolute cwd p = (if \<not> startswith p ''/'' then posix_join cwd p else p)"

text \<open>
  \<open>has_file t cs fn\<close>: the tree holds a regular file named \<open>fn\<close> in the directory reached
  from the top through the subdirectories \<open>cs\<close>.
\<close>

fun has_file :: "fsnode \<Rightarrow> string list \<Rightarrow> string \<Rightarrow> bool" where
  "has_file File cs fn = False"
| "has_file (Dir es) [] fn = ((fn, File) \<in> set es)"
| "has_file (Dir es) (c # cs) fn = (\<exists>e \<in> set es. fst e = c \<and> has_file (snd e) cs fn)"

text \<open>The path of that directory and of that file, as \<^verbatim>\<open>os.walk\<close> and \<^verbatim>\<open>main\<close> build them.\<close>

definition dir_path :: "host \<Rightarrow> string \<Rightarrow> string list \<Rightarrow> string" where
  "dir_path h source_dir cs = foldl (path_join h) source_dir cs"

definition file_path :: "host \<Rightarrow> string \<Rightarrow> string list \<Rightarrow> string \<Rightarrow> string" where
  "file_path h source_dir cs fn = path_join h (dir_path h source_dir cs) fn"

section \<open>Example inputs\<close>

text \<open>A remote store that replays a fixed list of answers, whatever it is asked.\<close>

definition replay :: "response list remote" where
  "replay s rq = (case s of [] \<Rightarrow> (OtherFail, []) | r # rs \<Rightarrow> (r, rs))"

definition example_config :: config where
  "example_config =
     \<lparr> GITHUB_TOKEN = ''t0k'', REPO = ''o/r'', BRANCH = ''feature/webssh-verifier'',
       BASE_BRANCH = ''main'', SOURCE_DIR = ''.'', COMMIT_PREFIX = ''chore(verifier):'' \<rparr>"

definition hello_bytes :: "string \<Rightarrow> string option" where
  "hello_bytes p = Some ''hello''"

text \<open>
  A host whose separator is the backslash, for example runs: it joins with a backslash and
  its \<^verbatim>\<open>relpath\<close> cuts the start directory off the front. This is what \<^verbatim>\<open>ntpath\<close> does on
  the paths of the examples (no drive, no slash, the file below the start directory).
\<close>

definition backslash_host :: host where
  "backslash_host =
     \<lparr> sep = backslash,
       path_join = (\<lambda>a b. a @ [backslash] @ b),
       relpath = (\<lambda>path start.
          if prefix (start @ [backslash]) path then Some (drop (length start + 1) path)
          else None) \<rparr>"

text \<open>Names joined by backslashes, the way a path is written on Windows.\<close>

definition bs :: "string list \<Rightarrow> string" where
  "bs ns = str_join [backslash] ns"

text \<open>
  A host for runs on the current directory of a drive (\<^verbatim>\<open>SOURCE_DIR\<close> is \<^verbatim>\<open>C:\<close>): as \<^verbatim>\<open>ntpath\<close>
  does, it puts no separator between a bare drive and a name, and its \<^verbatim>\<open>relpath\<close> from the
  drive cuts the drive off.
\<close>

definition drive_host :: host where
  "drive_host =
     \<lparr> sep = backslash,
       path_join = (\<lambda>a b. if a \<noteq> [] \<and> last a = CHR '':'' then a @ b else a @ [backslash] @ b),
       relpath = (\<lambda>path start.
          if start \<noteq> [] \<and> last start = CHR '':'' \<and> prefix start path
          then Some (drop (length start) path)
          else None) \<rparr>"

text \<open>The tree of the end-to-end scenario, with more files around it.\<close>

definition example_tree :: fsnode where
  "example_tree =
     Dir [(''a.txt'', File),
          (''.git'', Dir [(''HEAD'', File), (''refs'', Dir [(''heads'', Dir [(''main'', File)])])]),
          (''out.zip'', File),
          (''out.zip.bak'', File),
          (''.github'', Dir [(''workflows'', Dir [(''ci.yml'', File)])]),
          (''a'', Dir [(''b'', Dir [(''c.txt'', File)])])]"

text \<open>
  A small store of refs for example runs: its state lists the addresses of the refs that
  exist. A GET finds a ref or answers 404, a POST creates the ref named in its payload, a
  PUT is accepted.
\<close>

definition ref_store :: "string list remote" where
  "ref_store s rq =
     (case meth rq of
        GET \<Rightarrow>
          (if url rq \<in> set s
           then (Body (JObj [(''object'', JObj [(''sha'', JStr ''abc123'')])]), s)
           else (HttpFail 404 (Some ''Not Found''), s))
      | POST \<Rightarrow>
          (case request_field rq ''ref'' of
             Some (JStr r) \<Rightarrow> (Body JNull, (API_BASE @ ''/repos/o/r/git/ref/'' @ drop 5 r) # s)
           | _ \<Rightarrow> (HttpFail 422 (Some ''Unprocessable''), s))
      | PUT \<Rightarrow> (Body JNull, s))"

text \<open>
  Three files to upload over the replaying store: the base branch resolves, the target
  branch exists, the first PUT is accepted and the second is answered with status 422.
\<close>

definition three_files :: "response list world" where
  "three_files =
     \<lparr> environ = [''GITHUB_TOKEN'' \<mapsto> ''t0k'', ''REPO'' \<mapsto> ''o/r''],
       stdin_answer = None,
       os_host = posix ''/home/u'',
       source_tree = Dir [(''one.txt'', File), (''two.txt'', File), (''three.txt'', File)],
       file_bytes = hello_bytes,
       remote_api = replay,
       remote_start =
         [Body (JObj [(''object'', JObj [(''sha'', JStr ''abc123'')])]),
          Body (JObj [(''ref'', JStr ''refs/heads/feature/webssh-verifier'')]),
          HttpFail 404 (Some ''Not Found''), Body JNull,
          HttpFail 404 (Some ''Not Found''), HttpFail 422 (Some ''rejected''),
          HttpFail 404 (Some ''Not Found''), Body JNull] \<rparr>"

text \<open>
  Two runs that meet a failure the script does not catch: the network is down at the first
  call; and the first PUT is answered with status 502 and a body that is not UTF-8.
\<close>

definition net_down :: "response list world" where
  "net_down = three_files \<lparr> remote_start := [] \<rparr>"

definition garbled_rejection :: "response list world" where
  "garbled_rejection =
     three_files \<lparr> remote_start :=
       [Body (JObj [(''object'', JObj [(''sha'', JStr ''abc123'')])]),
        Body (JObj [(''ref'', JStr ''refs/heads/feature/webssh-verifier'')]),
        HttpFail 404 (Some ''Not Found''), HttpFail 502 None] \<rparr>"



section \<open>Properties of \<^verbatim>\<open>upload_file\<close>\<close>

lemma subscript_payload_sha:
  "subscript (upload_payload cfg rel c sha) ''sha'' = (if truthy sha then Inr sha else Inl KeyError)"
  by (simp add: upload_payload_def)

lemma subscript_payload_message:
  "subscript (upload_payload cfg rel c sha) ''message'' = Inr (JStr (commit_message cfg rel))"
  by (simp add: upload_payload_def)

lemma existing_sha_eq:
  assumes "quote rel = Inr quoted"
    and "rem (fst st) (get_request cfg (query_path cfg quoted)) = (r1, s1)"
  shows "existing_sha cfg rem rel st =
     ((case r1 of
         Body j \<Rightarrow> (case dict_get j ''sha'' JNull of Inl e \<Rightarrow> JNull | Inr v \<Rightarrow> v)
       | _ \<Rightarrow> JNull),
      (s1, snd st @ [(get_request cfg (query_path cfg quoted), r1)]))"
  using assms
  by (simp add: existing_sha_def api_get_def urlopen_json_def split: response.splits sum.splits)

lemma quote_Inr: "quote rel = Inr quoted \<Longrightarrow> quoted = percent_encode rel"
  by (simp add: quote_def split: if_splits)

lemma quote_Inl: "quote rel = Inl e \<Longrightarrow> e = UnicodeEncodeError"
  by (simp add: quote_def split: if_splits)

text \<open>With a name that \<^verbatim>\<open>quote\<close> refuses, \<^verbatim>\<open>upload_file\<close> makes no call at all.\<close>

lemma upload_file_unencodable:
  assumes "open_rb p = Some content" and "quote rel = Inl e"
  shows "upload_file cfg open_rb rem (p, rel) st = (Inl UnicodeEncodeError, st)"
  using assms quote_Inl[OF assms(2)] by (simp add: upload_file_def existing_sha_def)

lemma upload_file_eq:
  assumes "open_rb p = Some content"
    and "quote rel = Inr quoted"
    and "existing_sha cfg rem rel st = (sha, st1)"
    and "rem (fst st1) (put_request cfg (contents_path cfg quoted)
                         (upload_payload cfg rel (b64encode content) sha)) = (r2, s2)"
  shows "upload_file cfg open_rb rem (p, rel) st =
     (put_outcome r2,
      (s2, snd st1 @ [(put_request cfg (contents_path cfg quoted)
                         (upload_payload cfg rel (b64encode content) sha), r2)]))"
  using assms
  by (cases r2) (auto simp: upload_file_def api_put_def urlopen_json_def split: option.splits)

text \<open>
  Claim C1. When the file can be read and \<^verbatim>\<open>quote\<close> accepts its relative path,
  \<^verbatim>\<open>upload_file\<close> makes exactly two calls: the query for the file on the branch, then the
  PUT. If the query is answered by anything but a parsed body (an HTTP error such as
  not-found, or any other failure), the payload of the PUT has no \<^verbatim>\<open>sha\<close> key: create mode.
  If the query is answered by an object whose \<^verbatim>\<open>sha\<close> is a token (a value Python takes as
  true), the payload carries that token under \<^verbatim>\<open>sha\<close>: update mode. (With a name that
  \<^verbatim>\<open>quote\<close> refuses there is no query and no PUT, see \<open>upload_file_unencodable\<close>.)
\<close>

theorem upload_file_create_or_update:
  assumes "open_rb p = Some content"
    and "quote rel = Inr quoted"
    and "rem (fst st) (get_request cfg (query_path cfg quoted)) = (r1, s1)"
  shows "\<exists>payload r2 s2.
      upload_file cfg open_rb rem (p, rel) st =
        (put_outcome r2,
         (s2, snd st @ [(get_request cfg (query_path cfg quoted), r1),
                        (put_request cfg (contents_path cfg quoted) payload, r2)]))
      \<and> ((\<forall>j. r1 \<noteq> Body j) \<longrightarrow> subscript payload ''sha'' = Inl KeyError)
      \<and> (\<forall>kvs tok. r1 = Body (JObj kvs) \<and> map_of kvs ''sha'' = Some tok \<and> truthy tok
            \<longrightarrow> subscript payload ''sha'' = Inr tok)"
proof -
  define sha where "sha = (case r1 of
         Body j \<Rightarrow> (case dict_get j ''sha'' JNull of Inl e \<Rightarrow> JNull | Inr v \<Rightarrow> v)
       | _ \<Rightarrow> JNull)"
  define payload where "payload = upload_payload cfg rel (b64encode content) sha"
  obtain r2 s2 where put: "rem s1 (put_request cfg (contents_path cfg quoted) payload) = (r2, s2)"
    by (cases "rem s1 (put_request cfg (contents_path cfg quoted) payload)")
  have ex: "existing_sha cfg rem rel st
      = (sha, (s1, snd st @ [(get_request cfg (query_path cfg quoted), r1)]))"
    using existing_sha_eq[where rem=rem and st=st and cfg=cfg and rel=rel and quoted=quoted
        and ?r1.0=r1 and ?s1.0=s1] assms(2,3)
    by (simp add: sha_def)
  have run: "upload_file cfg open_rb rem (p, rel) st =
        (put_outcome r2,
         (s2, snd st @ [(get_request cfg (query_path cfg quoted), r1),
                        (put_request cfg (contents_path cfg quoted) payload, r2)]))"
    using upload_file_eq[where rem=rem and open_rb=open_rb and st=st and cfg=cfg and rel=rel,
        OF assms(1,2) ex] put
    by (simp add: payload_def)
  have create: "(\<forall>j. r1 \<noteq> Body j) \<longrightarrow> subscript payload ''sha'' = Inl KeyError"
    by (cases r1) (simp_all add: payload_def sha_def subscript_payload_sha)
  have update: "\<forall>kvs tok. r1 = Body (JObj kvs) \<and> map_of kvs ''sha'' = Some tok \<and> truthy tok
            \<longrightarrow> subscript payload ''sha'' = Inr tok"
    by (simp add: payload_def sha_def subscript_payload_sha)
  from run create update show ?thesis by blast
qed

theorem upload_file_create_or_update_witness:
  "\<exists>payload r2 s2.
      upload_file example_config hello_bytes replay (''./a.txt'', ''a.txt'')
          ([Body (JObj [(''sha'', JStr ''s1'')]), Body JNull], []) =
        (put_outcome r2,
         (s2, [(get_request example_config (query_path example_config ''a.txt''),
                 Body (JObj [(''sha'', JStr ''s1'')])),
                (put_request example_config (contents_path example_config ''a.txt'') payload, r2)]))
      \<and> subscript payload ''sha'' = Inr (JStr ''s1'')"
proof -
  have h1: "hello_bytes ''./a.txt'' = Some ''hello''" by (simp add: hello_bytes_def)
  have hq: "quote ''a.txt'' = Inr ''a.txt''" by code_simp
  have h2: "replay (fst ([Body (JObj [(''sha'', JStr ''s1'')]), Body JNull], []))
              (get_request example_config (query_path example_config ''a.txt''))
            = (Body (JObj [(''sha'', JStr ''s1'')]), [Body JNull])"
    by (simp add: replay_def)
  show ?thesis
    using upload_file_create_or_update[where rem=replay and open_rb=hello_bytes and cfg=example_config
        and st="([Body (JObj [(''sha'', JStr ''s1'')]), Body JNull], [])" and rel="''a.txt''",
        OF h1 hq h2]
    by auto
qed

text \<open>
  Claim C5, as amended. For a file that can be read and whose relative path \<^verbatim>\<open>quote\<close>
  accepts, the last call of \<^verbatim>\<open>upload_file\<close> is the PUT, and the commit message in its
  payload is the prefix, the text \<^verbatim>\<open> add \<close> (with a space on each side), and the relative
  path.
\<close>

theorem upload_file_commit_message:
  assumes "open_rb p = Some content" and "quote rel = Inr quoted"
  shows "meth (fst (last (snd (snd (upload_file cfg open_rb rem (p, rel) st))))) = PUT
       \<and> request_field (fst (last (snd (snd (upload_file cfg open_rb rem (p, rel) st))))) ''message''
           = Some (JStr (COMMIT_PREFIX cfg @ '' add '' @ rel))"
proof -
  obtain sha st1 where ex: "existing_sha cfg rem rel st = (sha, st1)"
    by (cases "existing_sha cfg rem rel st")
  obtain r2 s2 where put: "rem (fst st1) (put_request cfg (contents_path cfg quoted)
                         (upload_payload cfg rel (b64encode content) sha)) = (r2, s2)"
    by (cases "rem (fst st1) (put_request cfg (contents_path cfg quoted)
                         (upload_payload cfg rel (b64encode content) sha))")
  show ?thesis
    by (simp add: upload_file_eq[where rem=rem and open_rb=open_rb and st=st and cfg=cfg
          and rel=rel, OF assms ex put]
        request_field_def put_request_def subscript_payload_message commit_message_def)
qed

theorem upload_file_commit_message_witness:
  "request_field (fst (last (snd (snd (upload_file example_config hello_bytes replay
        (''./a.txt'', ''a.txt'') ([HttpFail 404 None, Body JNull], [])))))) ''message''
     = Some (JStr ''chore(verifier): add a.txt'')"
proof -
  have h1: "hello_bytes ''./a.txt'' = Some ''hello''" by (simp add: hello_bytes_def)
  have hq: "quote ''a.txt'' = Inr ''a.txt''" by code_simp
  show ?thesis
    using upload_file_commit_message[where rem=replay and open_rb=hello_bytes and cfg=example_config
        and st="([HttpFail 404 None, Body JNull], [])" and rel="''a.txt''", OF h1 hq]
    by (simp add: example_config_def)
qed

text \<open>
  Claim C5 as it was stated fails: with the prefix \<^verbatim>\<open>chore(verifier):\<close> and the path
  \<^verbatim>\<open>a.txt\<close> the message of the PUT is \<^verbatim>\<open>chore(verifier): add a.txt\<close>, not the prefix
  followed by the path.
\<close>

theorem commit_message_counterexample:
  "request_field (fst (last (snd (snd (upload_file example_config hello_bytes replay
        (''./a.txt'', ''a.txt'') ([HttpFail 404 None, Body JNull], [])))))) ''message''
     = Some (JStr ''chore(verifier): add a.txt'')
   \<and> COMMIT_PREFIX example_config @ ''a.txt'' = ''chore(verifier):a.txt''
   \<and> ''chore(verifier): add a.txt'' \<noteq> ''chore(verifier):a.txt''"
  by code_simp

section \<open>Properties of the memory service\<close>

text \<open>
  Claim C10. When the memory file exists and holds a JSON object without the key, the
  handler raises nothing and returns the object whose \<^verbatim>\<open>value\<close> is the string
  \<^verbatim>\<open>Not Found\<close>.
\<close>

theorem get_memory_absent_key:
  assumes "map_of kvs key = None"
  shows "get_memory (Some (Inr (JObj kvs))) key = Return (JObj [(''value'', JStr ''Not Found'')])"
  using assms by (simp add: get_memory_def)

theorem get_memory_absent_key_witness:
  "get_memory (Some (Inr (JObj [(''alpha'', JStr ''one'')]))) ''beta''
     = Return (JObj [(''value'', JStr ''Not Found'')])"
  using get_memory_absent_key[of "[(''alpha'', JStr ''one'')]" "''beta''"] by simp

section \<open>Properties of discovery\<close>

subsection \<open>The walk visits every directory of the tree\<close>

lemma not_is_dir: "\<not> is_dir t \<longleftrightarrow> t = File"
  by (cases t) simp_all

lemma dir_path_Cons: "dir_path h src (c # cs) = dir_path h (path_join h src c) cs"
  by (simp add: dir_path_def)

lemma dir_path_append: "dir_path h src (cs @ ds) = dir_path h (dir_path h src cs) ds"
  by (simp add: dir_path_def)

lemma walk_sound:
  "(root, ds, fns) \<in> set (walk h src t) \<Longrightarrow>
     \<exists>cs. root = dir_path h src cs \<and> (\<forall>fn \<in> set fns. has_file t cs fn)"
proof (induction t arbitrary: src)
  case File
  then show ?case by simp
next
  case (Dir es)
  from Dir.prems consider
      (here) "root = src" "fns = map fst (filter (\<lambda>e. \<not> is_dir (snd e)) es)"
    | (below) e where "e \<in> set es" "(root, ds, fns) \<in> set (walk h (path_join h src (fst e)) (snd e))"
    by auto
  then show ?case
  proof cases
    case here
    have "\<forall>fn \<in> set fns. has_file (Dir es) [] fn"
      using here(2) by (auto simp: not_is_dir)
    with here(1) show ?thesis
      by (intro exI[of _ "[]"]) (simp add: dir_path_def)
  next
    case below
    have "snd e \<in> Basic_BNFs.snds e" by (cases e) simp
    from Dir.IH[OF below(1) this below(2)]
    obtain cs where cs: "root = dir_path h (path_join h src (fst e)) cs"
        "\<forall>fn \<in> set fns. has_file (snd e) cs fn" by blast
    have "\<forall>fn \<in> set fns. has_file (Dir es) (fst e # cs) fn"
      using cs(2) below(1) by auto
    with cs(1) show ?thesis
      by (intro exI[of _ "fst e # cs"]) (simp add: dir_path_Cons)
  qed
qed

lemma walk_complete:
  "has_file t cs fn \<Longrightarrow>
     \<exists>ds fns. (dir_path h src cs, ds, fns) \<in> set (walk h src t) \<and> fn \<in> set fns"
proof (induction t cs fn arbitrary: src rule: has_file.induct)
  case (1 cs fn)
  then show ?case by simp
next
  case (2 es fn)
  then have "fn \<in> set (map fst (filter (\<lambda>e. \<not> is_dir (snd e)) es))"
    by (force simp: not_is_dir)
  then show ?case
    by (intro exI[of _ "map fst (filter (\<lambda>e. is_dir (snd e)) es)"]
              exI[of _ "map fst (filter (\<lambda>e. \<not> is_dir (snd e)) es)"])
       (simp add: dir_path_def)
next
  case (3 es c cs fn)
  then obtain e where e: "e \<in> set es" "fst e = c" "has_file (snd e) cs fn" by auto
  from "3.IH"[OF e(1) e(3), of "path_join h src c"]
  obtain ds fns where w: "(dir_path h (path_join h src c) cs, ds, fns) \<in> set (walk h (path_join h src c) (snd e))"
    and fn: "fn \<in> set fns"
    by blast
  have "(dir_path h src (c # cs), ds, fns) \<in> set (walk h src (Dir es))"
    using w e(1,2) by (auto simp: dir_path_Cons)
  with fn show ?case by blast
qed

lemma has_file_valid:
  "has_file t cs fn \<Longrightarrow> valid_tree t \<Longrightarrow> valid_name fn \<and> (\<forall>c \<in> set cs. valid_name c)"
proof (induction t cs fn rule: has_file.induct)
  case (1 cs fn)
  then show ?case by simp
next
  case (2 es fn)
  then show ?case by force
next
  case (3 es c cs fn)
  then show ?case by force
qed

subsection \<open>What the two loops keep\<close>

lemma scan_names_mem:
  "scan_names h src root fns = Inr recs \<Longrightarrow>
     (x \<in> set recs \<longleftrightarrow>
        (\<exists>fn r. fn \<in> set fns \<and> \<not> endswith fn ''.zip''
           \<and> relpath h (path_join h root fn) src = Some r
           \<and> x = (path_join h root fn, replace_backslash r)))"
proof (induction fns arbitrary: recs)
  case Nil
  then show ?case by auto
next
  case (Cons fn fns)
  show ?case
  proof (cases "endswith fn ''.zip''")
    case True
    with Cons show ?thesis by auto
  next
    case False
    with Cons.prems obtain r rest where
      r: "relpath h (path_join h root fn) src = Some r"
      and rest: "scan_names h src root fns = Inr rest"
      and recs: "recs = (path_join h root fn, replace_backslash r) # rest"
      by (auto simp: Let_def split: option.splits sum.splits)
    from Cons.IH[OF rest] r recs False show ?thesis by auto
  qed
qed

lemma scan_names_keeps:
  "scan_names h src root fns = Inr recs \<Longrightarrow> fn \<in> set fns \<Longrightarrow> \<not> endswith fn ''.zip'' \<Longrightarrow>
     \<exists>r. relpath h (path_join h root fn) src = Some r
       \<and> (path_join h root fn, replace_backslash r) \<in> set recs"
proof (induction fns arbitrary: recs)
  case Nil
  then show ?case by simp
next
  case (Cons a fns)
  show ?case
  proof (cases "endswith a ''.zip''")
    case True
    with Cons show ?thesis by auto
  next
    case False
    with Cons.prems(1) obtain r rest where
      r: "relpath h (path_join h root a) src = Some r"
      and rest: "scan_names h src root fns = Inr rest"
      and recs: "recs = (path_join h root a, replace_backslash r) # rest"
      by (auto simp: Let_def split: option.splits sum.splits)
    show ?thesis
    proof (cases "fn = a")
      case True
      with r recs show ?thesis by simp
    next
      case False
      with Cons.prems(2) have "fn \<in> set fns" by simp
      from Cons.IH[OF rest this Cons.prems(3)] recs show ?thesis by auto
    qed
  qed
qed

lemma scan_walk_mem:
  "scan_walk h src ts = Inr recs \<Longrightarrow>
     (x \<in> set recs \<longleftrightarrow>
        (\<exists>root ds fns found. (root, ds, fns) \<in> set ts \<and> \<not> skipped h root
           \<and> scan_names h src root fns = Inr found \<and> x \<in> set found))"
proof (induction ts arbitrary: recs)
  case Nil
  then show ?case by auto
next
  case (Cons t ts)
  obtain root ds fns where t: "t = (root, ds, fns)" by (cases t)
  show ?case
  proof (cases "skipped h root")
    case True
    then have "scan_walk h src (t # ts) = scan_walk h src ts"
      by (auto simp: t skipped_def)
    with Cons.prems have "scan_walk h src ts = Inr recs" by simp
    from Cons.IH[OF this] True show ?thesis
      by (auto simp: t)
  next
    case False
    then have eq: "scan_walk h src (t # ts) =
        (case scan_names h src root fns of
          Inl e \<Rightarrow> Inl e
        | Inr files \<Rightarrow>
            (case scan_walk h src ts of
               Inl e \<Rightarrow> Inl e
             | Inr others \<Rightarrow> Inr (files @ others)))"
      by (auto simp: t skipped_def)
    with Cons.prems obtain found rest where
      found: "scan_names h src root fns = Inr found"
      and rest: "scan_walk h src ts = Inr rest"
      and recs: "recs = found @ rest"
      by (auto split: sum.splits)
    from Cons.IH[OF rest] found recs False show ?thesis
      by (auto simp: t)
  qed
qed

lemma scan_names_total:
  assumes "\<And>fn. fn \<in> set fns \<Longrightarrow> relpath h (path_join h root fn) src \<noteq> None"
  shows "\<exists>recs. scan_names h src root fns = Inr recs"
  using assms
proof (induction fns)
  case Nil
  then show ?case by simp
next
  case (Cons a fns)
  then obtain recs where "scan_names h src root fns = Inr recs" by auto
  moreover from Cons.prems[of a] obtain r where "relpath h (path_join h root a) src = Some r" by auto
  ultimately show ?case by (simp add: Let_def)
qed

lemma scan_walk_total:
  assumes "\<And>root ds fns fn. (root, ds, fns) \<in> set ts \<Longrightarrow> fn \<in> set fns
              \<Longrightarrow> relpath h (path_join h root fn) src \<noteq> None"
  shows "\<exists>recs. scan_walk h src ts = Inr recs"
  using assms
proof (induction ts)
  case Nil
  then show ?case by simp
next
  case (Cons t ts)
  obtain root ds fns where t: "t = (root, ds, fns)" by (cases t)
  from Cons obtain rest where rest: "scan_walk h src ts = Inr rest" by fastforce
  have "\<And>fn. fn \<in> set fns \<Longrightarrow> relpath h (path_join h root fn) src \<noteq> None"
    using Cons.prems[of root ds fns] by (simp add: t)
  from scan_names_total[OF this] obtain found where "scan_names h src root fns = Inr found"
    by blast
  with rest show ?case by (simp add: t)
qed

subsection \<open>Paths of a POSIX host\<close>

text \<open>
  Joining a file name to a directory puts the directory, closed by one slash, in front of
  the name; the lemmas below read the directory part back from the joined path.
\<close>

lemma valid_name_not_abs: "valid_name b \<Longrightarrow> \<not> startswith b ''/''"
  by (cases b) (auto simp: valid_name_def startswith_def)

lemma endswith_slash: "endswith a ''/'' \<longleftrightarrow> a \<noteq> [] \<and> last a = CHR ''/''"
  by (cases a rule: rev_cases) (auto simp: endswith_def suffix_def)

lemma posix_join_valid:
  "valid_name b \<Longrightarrow>
     posix_join a b = (if a = [] \<or> last a = CHR ''/'' then a else a @ ''/'') @ b"
  by (auto simp: posix_join_def valid_name_not_abs endswith_slash)

lemma posix_join_nonempty: "a \<noteq> [] \<Longrightarrow> posix_join a b \<noteq> []"
  by (cases b) (auto simp: posix_join_def startswith_def)

lemma split_no_sep: "c \<notin> set xs \<Longrightarrow> split c xs = [xs]"
  by (induction xs) auto

lemma split_nonempty: "split c xs \<noteq> []"
  by (induction xs) (auto split: list.splits)

lemma split_append_sep: "split c (xs @ c # ys) = split c xs @ split c ys"
proof (induction xs)
  case Nil
  then show ?case by simp
next
  case (Cons x xs)
  then show ?case
    by (cases "split c xs") (auto simp: split_nonempty)
qed

lemma slash_end_unique:
  assumes eq: "xs @ b = ys @ b'"
    and b: "CHR ''/'' \<notin> set b" and b': "CHR ''/'' \<notin> set b'"
    and xs: "xs = [] \<or> last xs = CHR ''/''" and ys: "ys = [] \<or> last ys = CHR ''/''"
  shows "xs = ys \<and> b = b'"
proof -
  from eq obtain us where "(xs = ys @ us \<and> us @ b = b') \<or> (xs @ us = ys \<and> b = us @ b')"
    by (auto simp: append_eq_append_conv2)
  then show ?thesis
  proof
    assume h: "xs = ys @ us \<and> us @ b = b'"
    have "us = []"
    proof (rule ccontr)
      assume "us \<noteq> []"
      with h have "last xs = last us" "xs \<noteq> []" by auto
      moreover from h b' \<open>us \<noteq> []\<close> have "last us \<noteq> CHR ''/''" by (metis Un_iff last_in_set set_append)
      ultimately show False using xs by auto
    qed
    with h show ?thesis by simp
  next
    assume h: "xs @ us = ys \<and> b = us @ b'"
    have "us = []"
    proof (rule ccontr)
      assume "us \<noteq> []"
      with h have "last ys = last us" "ys \<noteq> []" by auto
      moreover from h b \<open>us \<noteq> []\<close> have "last us \<noteq> CHR ''/''" by (metis Un_iff last_in_set set_append)
      ultimately show False using ys by auto
    qed
    with h show ?thesis by simp
  qed
qed

lemma posix_join_inj:
  assumes "posix_join a b = posix_join a' b'" "valid_name b" "valid_name b'"
  shows "(if a = [] \<or> last a = CHR ''/'' then a else a @ ''/'')
           = (if a' = [] \<or> last a' = CHR ''/'' then a' else a' @ ''/'') \<and> b = b'"
proof (rule slash_end_unique)
  show "(if a = [] \<or> last a = CHR ''/'' then a else a @ ''/'') @ b
      = (if a' = [] \<or> last a' = CHR ''/'' then a' else a' @ ''/'') @ b'"
    using assms by (simp add: posix_join_valid)
qed (use assms in \<open>auto simp: valid_name_def\<close>)

lemma git_component_slash: "''.git'' \<in> set (split CHR ''/'' (a @ ''/'')) \<longleftrightarrow> ''.git'' \<in> set (split CHR ''/'' a)"
  using split_append_sep[of "CHR ''/''" a "[]"] by auto

lemma git_prefix_slash: "startswith (a @ ''/'') ''./.git'' \<longleftrightarrow> startswith a ''./.git''"
  by (auto simp: startswith_def)

lemma git_infix_slash: "contains (a @ ''/'') ''/.git'' \<longleftrightarrow> contains a ''/.git''"
proof
  assume "contains (a @ ''/'') ''/.git''"
  then obtain ps ss where eq: "a @ ''/'' = ps @ ''/.git'' @ ss"
    by (auto simp: contains_def sublist_def)
  show "contains a ''/.git''"
  proof (cases ss rule: rev_cases)
    case Nil
    with eq have "a @ ''/'' = (ps @ ''/.gi'') @ ''t''" by simp
    then show ?thesis by (simp only: append1_eq_conv) simp
  next
    case (snoc ss' c)
    with eq have "a @ ''/'' = (ps @ ''/.git'' @ ss') @ [c]" by simp
    then have "a = ps @ ''/.git'' @ ss'" by (simp only: append1_eq_conv)
    then show ?thesis by (auto simp: contains_def sublist_def)
  qed
next
  assume "contains a ''/.git''"
  then obtain ps ss where "a = ps @ ''/.git'' @ ss"
    by (auto simp: contains_def sublist_def)
  then have "a @ ''/'' = ps @ ''/.git'' @ (ss @ ''/'')" by simp
  then show "contains (a @ ''/'') ''/.git''"
    unfolding contains_def sublist_def by blast
qed

lemma skipped_posix_slash: "skipped (posix cwd) (a @ ''/'') = skipped (posix cwd) a"
  using git_component_slash[of a] git_prefix_slash[of a] git_infix_slash[of a]
  by (simp add: skipped_def posix_def)

lemma skipped_posix_pre:
  "skipped (posix cwd) (if a = [] \<or> last a = CHR ''/'' then a else a @ ''/'') = skipped (posix cwd) a"
  by (simp add: skipped_posix_slash)



lemma posix_join_prefix: "valid_name c \<Longrightarrow> prefix a (posix_join a c)"
  by (simp add: posix_join_valid)

lemma dir_path_prefix:
  "\<forall>c \<in> set cs. valid_name c \<Longrightarrow> prefix a (dir_path (posix cwd) a cs)"
proof (induction cs rule: rev_induct)
  case Nil
  then show ?case by (simp add: dir_path_def)
next
  case (snoc c cs)
  have "prefix a (dir_path (posix cwd) a cs)" using snoc by simp
  moreover have "prefix (dir_path (posix cwd) a cs) (dir_path (posix cwd) a (cs @ [c]))"
    using snoc.prems by (simp add: dir_path_def posix_def posix_join_prefix)
  ultimately show ?case by (rule prefix_order.trans)
qed

lemma substring_rule_prefix:
  assumes "startswith a ''./.git'' \<or> contains a ''/.git''" "prefix a b"
  shows "startswith b ''./.git'' \<or> contains b ''/.git''"
proof -
  from assms(2) obtain zs where b: "b = a @ zs" by (auto simp: prefix_def)
  from assms(1) show ?thesis
  proof
    assume "startswith a ''./.git''"
    then show ?thesis by (auto simp: startswith_def b prefix_def)
  next
    assume "contains a ''/.git''"
    then obtain ps ss where "a = ps @ ''/.git'' @ ss" by (auto simp: contains_def sublist_def)
    then have "b = ps @ ''/.git'' @ (ss @ zs)" by (simp add: b)
    then show ?thesis unfolding contains_def sublist_def by blast
  qed
qed

lemma dir_path_nonempty: "src \<noteq> [] \<Longrightarrow> dir_path (posix cwd) src cs \<noteq> []"
  by (induction cs rule: rev_induct) (simp_all add: dir_path_def posix_def posix_join_nonempty)

lemma posix_relpath_total: "path \<noteq> [] \<Longrightarrow> posix_relpath cwd path start \<noteq> None"
  by (simp add: posix_relpath_def Let_def)

lemma discover_files_posix_total:
  assumes "src \<noteq> []"
  shows "\<exists>recs. discover_files (posix cwd) src t = Inr recs"
  unfolding discover_files_def
proof (rule scan_walk_total)
  fix root ds fns fn
  assume "(root, ds, fns) \<in> set (walk (posix cwd) src t)"
  from walk_sound[OF this] obtain cs where "root = dir_path (posix cwd) src cs" by blast
  with assms have "root \<noteq> []" by (simp add: dir_path_nonempty)
  then show "relpath (posix cwd) (path_join (posix cwd) root fn) src \<noteq> None"
    by (simp add: posix_def posix_relpath_total posix_join_nonempty)
qed

text \<open>Where a record of the output comes from.\<close>

lemma discover_files_mem:
  assumes "discover_files h src t = Inr recs"
  shows "(full, rel) \<in> set recs \<longleftrightarrow>
     (\<exists>cs fn r. has_file t cs fn \<and> \<not> skipped h (dir_path h src cs) \<and> \<not> endswith fn ''.zip''
        \<and> full = file_path h src cs fn \<and> relpath h full src = Some r \<and> rel = replace_backslash r)"
proof
  assume "(full, rel) \<in> set recs"
  with scan_walk_mem[OF assms[unfolded discover_files_def]]
  obtain root ds fns found where
    tr: "(root, ds, fns) \<in> set (walk h src t)" and sk: "\<not> skipped h root"
    and found: "scan_names h src root fns = Inr found" "(full, rel) \<in> set found"
    by blast
  from scan_names_mem[OF found(1)] found(2) obtain fn r where
    fn: "fn \<in> set fns" "\<not> endswith fn ''.zip''"
      "relpath h (path_join h root fn) src = Some r"
      "full = path_join h root fn" "rel = replace_backslash r"
    by auto
  from walk_sound[OF tr] fn(1) obtain cs where
    "root = dir_path h src cs" "has_file t cs fn" by blast
  with sk fn show "\<exists>cs fn r. has_file t cs fn \<and> \<not> skipped h (dir_path h src cs)
        \<and> \<not> endswith fn ''.zip'' \<and> full = file_path h src cs fn
        \<and> relpath h full src = Some r \<and> rel = replace_backslash r"
    by (auto simp: file_path_def)
next
  assume "\<exists>cs fn r. has_file t cs fn \<and> \<not> skipped h (dir_path h src cs)
        \<and> \<not> endswith fn ''.zip'' \<and> full = file_path h src cs fn
        \<and> relpath h full src = Some r \<and> rel = replace_backslash r"
  then obtain cs fn r where
    f: "has_file t cs fn" "\<not> skipped h (dir_path h src cs)" "\<not> endswith fn ''.zip''"
      "full = file_path h src cs fn" "relpath h full src = Some r" "rel = replace_backslash r"
    by blast
  from walk_complete[OF f(1), of h src] obtain ds fns where
    tr: "(dir_path h src cs, ds, fns) \<in> set (walk h src t)" and fn: "fn \<in> set fns"
    by blast
  have "\<exists>found. scan_names h src (dir_path h src cs) fns = Inr found"
  proof (cases "scan_names h src (dir_path h src cs) fns")
    case (Inl e)
    have "\<And>ts. (dir_path h src cs, ds, fns) \<in> set ts \<Longrightarrow> \<exists>e. scan_walk h src ts = Inl e"
    proof -
      fix ts show "(dir_path h src cs, ds, fns) \<in> set ts \<Longrightarrow> \<exists>e. scan_walk h src ts = Inl e"
      proof (induction ts)
        case Nil
        then show ?case by simp
      next
        case (Cons a ts)
        obtain root' ds' fns' where a: "a = (root', ds', fns')" by (cases a)
        show ?case
        proof (cases "a = (dir_path h src cs, ds, fns)")
          case True
          with Inl f(2) show ?thesis by (auto simp: skipped_def)
        next
          case False
          with Cons obtain e' where "scan_walk h src ts = Inl e'" by auto
          then show ?thesis by (auto simp: a split: sum.splits)
        qed
      qed
    qed
    from this[OF tr] assms show ?thesis by (simp add: discover_files_def)
  next
    case (Inr found)
    then show ?thesis by blast
  qed
  then obtain found where found: "scan_names h src (dir_path h src cs) fns = Inr found" by blast
  from scan_names_keeps[OF found fn f(3)] f(4,5,6)
  have "(full, rel) \<in> set found" by (auto simp: file_path_def)
  with scan_walk_mem[OF assms[unfolded discover_files_def], of "(full, rel)"] tr f(2) found
  show "(full, rel) \<in> set recs" by blast
qed

subsection \<open>The relative path on a POSIX host\<close>

lemma plain_tree_valid: "plain_tree t \<Longrightarrow> valid_tree t"
  by (induction t) (auto simp: plain_name_def)

lemma has_file_plain:
  "has_file t cs fn \<Longrightarrow> plain_tree t \<Longrightarrow> plain_name fn \<and> (\<forall>c \<in> set cs. plain_name c)"
proof (induction t cs fn rule: has_file.induct)
  case (1 cs fn)
  then show ?case by simp
next
  case (2 es fn)
  then show ?case by force
next
  case (3 es c cs fn)
  then show ?case by force
qed

lemma str_join_snoc: "xs \<noteq> [] \<Longrightarrow> str_join s (xs @ [x]) = str_join s xs @ s @ x"
  by (induction s xs rule: str_join.induct) auto

lemma str_join_nonempty: "xs \<noteq> [] \<Longrightarrow> \<forall>x \<in> set xs. x \<noteq> [] \<Longrightarrow> str_join s xs \<noteq> []"
  by (induction s xs rule: str_join.induct) auto

lemma str_join_last:
  "xs \<noteq> [] \<Longrightarrow> \<forall>x \<in> set xs. x \<noteq> [] \<Longrightarrow> last (str_join s xs) = last (last xs)"
  by (induction s xs rule: str_join.induct) (auto simp: str_join_nonempty)

lemma str_join_hd:
  "xs \<noteq> [] \<Longrightarrow> \<forall>x \<in> set xs. x \<noteq> [] \<Longrightarrow> hd (str_join s xs) = hd (hd xs)"
  by (induction s xs rule: str_join.induct) auto

text \<open>Joining names one after the other to a directory.\<close>

lemma foldl_posix_join:
  assumes "\<forall>n \<in> set ns. valid_name n" "ns \<noteq> []"
  shows "foldl posix_join a ns
     = (if a = [] \<or> last a = CHR ''/'' then a else a @ ''/'') @ str_join ''/'' ns"
  using assms
proof (induction ns rule: rev_induct)
  case Nil
  then show ?case by simp
next
  case (snoc n ns)
  show ?case
  proof (cases "ns = []")
    case True
    with snoc.prems show ?thesis by (simp add: posix_join_valid)
  next
    case False
    let ?pre = "(if a = [] \<or> last a = CHR ''/'' then a else a @ ''/'')"
    from snoc False have ih: "foldl posix_join a ns = ?pre @ str_join ''/'' ns" by simp
    have ne: "\<forall>x \<in> set ns. x \<noteq> []" using snoc.prems by (auto simp: valid_name_def)
    have s: "str_join ''/'' ns \<noteq> []" using False ne by (rule str_join_nonempty)
    have "last (str_join ''/'' ns) = last (last ns)" using False ne by (rule str_join_last)
    moreover have "last ns \<in> set ns" using False by simp
    then have "last ns \<noteq> []" "CHR ''/'' \<notin> set (last ns)"
      using snoc.prems(1) by (auto simp: valid_name_def)
    then have "last (last ns) \<noteq> CHR ''/''" using last_in_set by metis
    ultimately have "last (str_join ''/'' ns) \<noteq> CHR ''/''" by simp
    with s have l: "last (?pre @ str_join ''/'' ns) \<noteq> CHR ''/''" "?pre @ str_join ''/'' ns \<noteq> []"
      by simp_all
    have "foldl posix_join a (ns @ [n]) = posix_join (?pre @ str_join ''/'' ns) n"
      by (simp add: ih)
    also have "\<dots> = (?pre @ str_join ''/'' ns) @ ''/'' @ n"
      using snoc.prems(1) l by (simp add: posix_join_valid)
    also have "\<dots> = ?pre @ str_join ''/'' (ns @ [n])"
      using False by (simp add: str_join_snoc)
    finally show ?thesis .
  qed
qed


lemma split_str_join:
  "ns \<noteq> [] \<Longrightarrow> \<forall>n \<in> set ns. c \<notin> set n \<Longrightarrow> split c (str_join [c] ns) = ns"
proof (induction "[c]" ns rule: str_join.induct)
  case 1
  then show ?case by simp
next
  case (2 x)
  then show ?case by (simp add: split_no_sep)
next
  case (3 x y ys)
  have "split c (x @ c # str_join [c] (y # ys)) = split c x @ split c (str_join [c] (y # ys))"
    by (rule split_append_sep)
  with 3 show ?case by (simp add: split_no_sep)
qed

lemma split_replicate: "split c (replicate k c @ s) = replicate k [] @ split c s"
  by (induction k) auto

lemma split_free: "w \<in> set (split c s) \<Longrightarrow> c \<notin> set w"
proof (induction s arbitrary: w)
  case Nil
  then show ?case by simp
next
  case (Cons x s)
  then show ?case by (auto split: if_splits list.splits)
qed

text \<open>What \<^verbatim>\<open>normpath\<close> keeps is a list of non-empty names, and a plain name is appended.\<close>

lemma norm_step_result:
  "norm_step k acc n = acc \<or> (n \<noteq> [] \<and> norm_step k acc n = acc @ [n])
     \<or> norm_step k acc n = butlast acc"
  by (simp add: norm_step_def)

lemma norm_step_names:
  assumes "\<forall>x \<in> set acc. x \<noteq> [] \<and> CHR ''/'' \<notin> set x" and "CHR ''/'' \<notin> set n"
  shows "\<forall>x \<in> set (norm_step k acc n). x \<noteq> [] \<and> CHR ''/'' \<notin> set x"
proof -
  have b: "\<forall>x \<in> set (butlast acc). x \<noteq> [] \<and> CHR ''/'' \<notin> set x"
    using assms(1) by (blast dest: in_set_butlastD)
  from norm_step_result[of k acc n] show ?thesis
  proof (elim disjE conjE)
    assume "norm_step k acc n = acc"
    with assms(1) show ?thesis by simp
  next
    assume "n \<noteq> []" "norm_step k acc n = acc @ [n]"
    with assms show ?thesis by simp
  next
    assume "norm_step k acc n = butlast acc"
    with b show ?thesis by simp
  qed
qed

lemma norm_fold_names:
  "\<forall>x \<in> set acc. x \<noteq> [] \<and> CHR ''/'' \<notin> set x \<Longrightarrow> \<forall>n \<in> set ns. CHR ''/'' \<notin> set n \<Longrightarrow>
     \<forall>x \<in> set (foldl (norm_step k) acc ns). x \<noteq> [] \<and> CHR ''/'' \<notin> set x"
proof (induction ns arbitrary: acc)
  case Nil
  then show ?case by simp
next
  case (Cons n ns)
  have a: "\<forall>x \<in> set (norm_step k acc n). x \<noteq> [] \<and> CHR ''/'' \<notin> set x"
  proof (rule norm_step_names)
    show "\<forall>x \<in> set acc. x \<noteq> [] \<and> CHR ''/'' \<notin> set x" by (rule Cons.prems(1))
    show "CHR ''/'' \<notin> set n" using Cons.prems(2) by simp
  qed
  have b: "\<forall>n \<in> set ns. CHR ''/'' \<notin> set n" using Cons.prems(2) by simp
  have "foldl (norm_step k) acc (n # ns) = foldl (norm_step k) (norm_step k acc n) ns"
    by simp
  with Cons.IH[OF a b] show ?case by simp
qed

lemma norm_step_plain: "plain_name n \<Longrightarrow> norm_step k acc n = acc @ [n]"
  by (simp add: norm_step_def plain_name_def valid_name_def)

lemma norm_fold_plain:
  "\<forall>n \<in> set ns. plain_name n \<Longrightarrow> foldl (norm_step k) acc ns = acc @ ns"
  by (induction ns arbitrary: acc) (simp_all add: norm_step_plain)

lemma names_of_normpath:
  assumes "\<forall>x \<in> set D. x \<noteq> [] \<and> CHR ''/'' \<notin> set x"
  shows "filter (\<lambda>x. x \<noteq> []) (split CHR ''/'' (replicate k CHR ''/'' @ str_join ''/'' D)) = D"
proof (cases "D = []")
  case True
  have "split CHR ''/'' (replicate k CHR ''/'' @ []) = replicate k [] @ [[]]"
    by (simp only: split_replicate split.simps)
  with True show ?thesis by simp
next
  case False
  have "split CHR ''/'' (str_join ''/'' D) = D"
    using False assms by (intro split_str_join) auto
  moreover have "filter (\<lambda>x. x \<noteq> []) D = D" using assms by (induction D) auto
  ultimately show ?thesis by (simp add: split_replicate)
qed

text \<open>\<^verbatim>\<open>normpath\<close> of an absolute path, and of the same path with plain names appended.\<close>

lemma normpath_absolute:
  assumes "startswith p ''/''"
  shows "posix_normpath p
     = replicate (slashes p) CHR ''/'' @ str_join ''/'' (foldl (norm_step (slashes p)) [] (split CHR ''/'' p))"
proof -
  from assms have "p \<noteq> []" by (auto simp: startswith_def)
  then show ?thesis using assms by (simp add: posix_normpath_def slashes_def Let_def)
qed


lemma slashes_pos: "0 < slashes p"
  by (simp add: slashes_def)

lemma startswith_slash: "startswith p ''/'' \<longleftrightarrow> (p \<noteq> [] \<and> hd p = CHR ''/'')"
  by (cases p) (auto simp: startswith_def)

lemma slashes_append:
  assumes "startswith p ''/''" "s \<noteq> []" "hd s \<noteq> CHR ''/''"
  shows "slashes (closed p @ s) = slashes p"
proof -
  obtain c s' where s: "s = c # s'" "c \<noteq> CHR ''/''" using assms(2,3) by (cases s) auto
  obtain p' where p: "p = CHR ''/'' # p'" using assms(1) by (cases p) (auto simp: startswith_def)
  show ?thesis
  proof (cases p')
    case Nil
    with p s show ?thesis by (simp add: slashes_def closed_def startswith_def)
  next
    case (Cons a q)
    note c1 = this
    show ?thesis
    proof (cases q)
      case Nil
      with p s c1 show ?thesis by (simp add: slashes_def closed_def startswith_def)
    next
      case (Cons b r)
      with p s c1 show ?thesis by (simp add: slashes_def closed_def startswith_def)
    qed
  qed
qed

lemma norm_fold_closed:
  assumes "p \<noteq> []" "ns \<noteq> []" "\<forall>n \<in> set ns. plain_name n"
  shows "foldl (norm_step k) [] (split CHR ''/'' (closed p @ str_join ''/'' ns))
     = foldl (norm_step k) [] (split CHR ''/'' p) @ ns"
proof -
  have free: "\<forall>n \<in> set ns. CHR ''/'' \<notin> set n"
    using assms(3) by (simp add: plain_name_def valid_name_def)
  have sj: "split CHR ''/'' (str_join ''/'' ns) = ns"
    using assms(2) free by (rule split_str_join)
  show ?thesis
  proof (cases "last p = CHR ''/''")
    case True
    with assms(1) obtain q where q: "p = q @ ''/''"
      by (metis append_butlast_last_id)
    have "split CHR ''/'' p = split CHR ''/'' q @ [[]]"
      using split_append_sep[of "CHR ''/''" q "[]"] by (simp add: q)
    moreover have "split CHR ''/'' (closed p @ str_join ''/'' ns) = split CHR ''/'' q @ ns"
      using split_append_sep[of "CHR ''/''" q "str_join ''/'' ns"] True assms(1)
      by (simp add: q closed_def sj)
    ultimately show ?thesis
      using assms(3) by (simp add: norm_fold_plain norm_step_def)
  next
    case False
    have "split CHR ''/'' (closed p @ str_join ''/'' ns) = split CHR ''/'' p @ ns"
      using split_append_sep[of "CHR ''/''" p "str_join ''/'' ns"] False assms(1)
      by (simp add: closed_def sj)
    then show ?thesis using assms(3) by (simp add: norm_fold_plain)
  qed
qed

lemma normpath_closed:
  assumes "startswith p ''/''" "ns \<noteq> []" "\<forall>n \<in> set ns. plain_name n"
  shows "posix_normpath (closed p @ str_join ''/'' ns)
     = replicate (slashes p) CHR ''/''
         @ str_join ''/'' (foldl (norm_step (slashes p)) [] (split CHR ''/'' p) @ ns)"
proof -
  let ?S = "str_join ''/'' ns"
  have ne: "\<forall>n \<in> set ns. n \<noteq> []" using assms(3) by (simp add: plain_name_def valid_name_def)
  have S: "?S \<noteq> []" using assms(2) ne by (rule str_join_nonempty)
  have "hd ?S = hd (hd ns)" using assms(2) ne by (rule str_join_hd)
  moreover have "hd ns \<in> set ns" using assms(2) by simp
  then have "hd ns \<noteq> []" "CHR ''/'' \<notin> set (hd ns)"
    using assms(3) by (auto simp: plain_name_def valid_name_def)
  then have "hd (hd ns) \<noteq> CHR ''/''" using hd_in_set by metis
  ultimately have h: "hd ?S \<noteq> CHR ''/''" by simp
  have p: "p \<noteq> []" using assms(1) by (simp add: startswith_slash)
  have st: "startswith (closed p @ ?S) ''/''"
    using assms(1) by (auto simp: startswith_slash closed_def)
  have sl: "slashes (closed p @ ?S) = slashes p" using assms(1) S h by (rule slashes_append)
  show ?thesis
    by (simp only: normpath_absolute[OF st] sl norm_fold_closed[OF p assms(2,3)])
qed

lemma closed_closed: "closed (closed a) = closed a"
  by (simp add: closed_def)

lemma posix_join_closed:
  assumes "\<not> startswith b ''/''"
  shows "posix_join a b = closed a @ b"
proof (cases "a = []")
  case True
  with assms show ?thesis by (simp add: posix_join_def closed_def)
next
  case False
  then have "endswith a ''/'' \<longleftrightarrow> last a = CHR ''/''"
    by (simp add: endswith_slash)
  with assms False show ?thesis by (simp add: posix_join_def closed_def)
qed

lemma absolute_starts:
  assumes "startswith cwd ''/''"
  shows "startswith (absolute cwd p) ''/''"
proof (cases "startswith p ''/''")
  case True
  then show ?thesis by (simp add: absolute_def)
next
  case False
  then have "absolute cwd p = closed cwd @ p" by (simp add: absolute_def posix_join_closed)
  then show ?thesis using assms by (auto simp: startswith_slash closed_def)
qed

lemma absolute_closed:
  assumes "startswith cwd ''/''" "s \<noteq> []" "hd s \<noteq> CHR ''/''"
  shows "absolute cwd (closed src @ s) = closed (absolute cwd src) @ s"
proof (cases "startswith src ''/''")
  case True
  then have "startswith (closed src @ s) ''/''" by (auto simp: startswith_slash closed_def)
  with True show ?thesis by (simp add: absolute_def)
next
  case False
  have cw: "cwd \<noteq> []" using assms(1) by (simp add: startswith_slash)
  have ns: "\<not> startswith (closed src @ s) ''/''"
    using False assms(2,3) by (cases src) (auto simp: startswith_slash closed_def)
  have l: "absolute cwd (closed src @ s) = closed cwd @ closed src @ s"
    using ns by (simp add: absolute_def posix_join_closed)
  have r: "absolute cwd src = closed cwd @ src"
    using False by (simp add: absolute_def posix_join_closed)
  show ?thesis
  proof (cases "src = []")
    case True
    then have e: "closed src = []" by (simp add: closed_def)
    have "absolute cwd s = closed cwd @ s" using l by (simp add: e)
    moreover have "absolute cwd [] = closed cwd" using r by (simp add: True)
    moreover have "closed [] = []" by (simp add: closed_def)
    ultimately show ?thesis by (simp add: True closed_closed)
  next
    case nonempty: False
    have "closed (closed cwd @ src) = closed cwd @ closed src"
      using nonempty by (simp add: closed_def)
    then show ?thesis by (simp add: l r)
  qed
qed


lemma common_prefix_append: "longest_common_prefix xs (xs @ ys) = xs"
  by (induction xs) simp_all

lemma join_names:
  assumes "ns \<noteq> []" "\<forall>n \<in> set ns. valid_name n"
  shows "foldl posix_join (hd ns) (tl ns) = str_join ''/'' ns"
proof (cases ns)
  case Nil
  with assms(1) show ?thesis by simp
next
  case (Cons n rest)
  show ?thesis
  proof (cases "rest = []")
    case True
    with Cons show ?thesis by simp
  next
    case False
    then obtain m ms where rest: "rest = m # ms" by (cases rest) auto
    have n: "n \<noteq> []" "CHR ''/'' \<notin> set n" using assms(2) Cons by (auto simp: valid_name_def)
    then have "last n \<noteq> CHR ''/''" using last_in_set by metis
    moreover have "foldl posix_join n rest
       = (if n = [] \<or> last n = CHR ''/'' then n else n @ ''/'') @ str_join ''/'' rest"
      using assms(2) Cons False by (intro foldl_posix_join) auto
    ultimately show ?thesis using n(1) by (simp add: Cons rest)
  qed
qed

text \<open>
  \<^verbatim>\<open>relpath\<close> of a path made of plain names joined to the start directory gives these names
  back, joined by slashes.
\<close>

lemma posix_relpath_under:
  assumes "startswith cwd ''/''" "ns \<noteq> []" "\<forall>n \<in> set ns. plain_name n"
  shows "posix_relpath cwd (closed src @ str_join ''/'' ns) src = Some (str_join ''/'' ns)"
proof -
  let ?S = "str_join ''/'' ns"
  let ?P = "absolute cwd src"
  let ?k = "slashes ?P"
  let ?C = "foldl (norm_step ?k) [] (split CHR ''/'' ?P)"
  have valid: "\<forall>n \<in> set ns. valid_name n" using assms(3) by (simp add: plain_name_def)
  have ne: "\<forall>n \<in> set ns. n \<noteq> []" using valid by (simp add: valid_name_def)
  have S: "?S \<noteq> []" using assms(2) ne by (rule str_join_nonempty)
  have "hd ?S = hd (hd ns)" using assms(2) ne by (rule str_join_hd)
  moreover have "hd ns \<in> set ns" using assms(2) by simp
  then have "hd ns \<noteq> []" "CHR ''/'' \<notin> set (hd ns)" using valid by (auto simp: valid_name_def)
  then have "hd (hd ns) \<noteq> CHR ''/''" using hd_in_set by metis
  ultimately have h: "hd ?S \<noteq> CHR ''/''" by simp
  have P: "startswith ?P ''/''" using assms(1) by (rule absolute_starts)
  have a1: "posix_abspath cwd src = replicate ?k CHR ''/'' @ str_join ''/'' ?C"
    using normpath_absolute[OF P] by (simp add: posix_abspath_def absolute_def)
  have "posix_abspath cwd (closed src @ ?S) = posix_normpath (closed ?P @ ?S)"
    using absolute_closed[OF assms(1) S h, of src] by (simp add: posix_abspath_def absolute_def)
  then have a2: "posix_abspath cwd (closed src @ ?S)
      = replicate ?k CHR ''/'' @ str_join ''/'' (?C @ ns)"
    by (simp only: normpath_closed[OF P assms(2,3)])
  have C: "\<forall>x \<in> set ?C. x \<noteq> [] \<and> CHR ''/'' \<notin> set x"
  proof (rule norm_fold_names)
    show "\<forall>x \<in> set []. x \<noteq> [] \<and> CHR ''/'' \<notin> set (x :: string)" by simp
    show "\<forall>n \<in> set (split CHR ''/'' ?P). CHR ''/'' \<notin> set n" by (blast dest: split_free)
  qed
  have Cns: "\<forall>x \<in> set (?C @ ns). x \<noteq> [] \<and> CHR ''/'' \<notin> set x"
    using C valid by (auto simp: valid_name_def)
  have l1: "filter (\<lambda>x. x \<noteq> []) (split CHR ''/'' (posix_abspath cwd src)) = ?C"
    by (simp only: a1 names_of_normpath[OF C])
  have l2: "filter (\<lambda>x. x \<noteq> []) (split CHR ''/'' (posix_abspath cwd (closed src @ ?S))) = ?C @ ns"
    by (simp only: a2 names_of_normpath[OF Cns])
  have "posix_relpath cwd (closed src @ ?S) src = Some (foldl posix_join (hd ns) (tl ns))"
    using S assms(2) by (simp add: posix_relpath_def Let_def l1 l2 common_prefix_append)
  then show ?thesis by (simp only: join_names[OF assms(2) valid])
qed

lemma file_path_posix:
  assumes "\<forall>c \<in> set cs. valid_name c" "valid_name fn"
  shows "file_path (posix cwd) src cs fn = closed src @ str_join ''/'' (cs @ [fn])"
proof -
  have "file_path (posix cwd) src cs fn = foldl posix_join src (cs @ [fn])"
    by (simp add: file_path_def dir_path_def posix_def)
  also have "\<dots> = closed src @ str_join ''/'' (cs @ [fn])"
    unfolding closed_def using assms by (intro foldl_posix_join) auto
  finally show ?thesis .
qed

lemma relpath_of_file:
  assumes "startswith cwd ''/''" "plain_tree t" "has_file t cs fn"
  shows "relpath (posix cwd) (file_path (posix cwd) src cs fn) src = Some (str_join ''/'' (cs @ [fn]))"
proof -
  from has_file_plain[OF assms(3,2)] have p: "\<forall>n \<in> set (cs @ [fn]). plain_name n" by simp
  then have v: "\<forall>c \<in> set cs. valid_name c" "valid_name fn" by (simp_all add: plain_name_def)
  have "posix_relpath cwd (closed src @ str_join ''/'' (cs @ [fn])) src
      = Some (str_join ''/'' (cs @ [fn]))"
    using assms(1) _ p by (rule posix_relpath_under) simp
  moreover have "relpath (posix cwd) = posix_relpath cwd" by (simp add: posix_def)
  ultimately show ?thesis by (simp only: file_path_posix[OF v])
qed

subsection \<open>The exclusions\<close>

lemma not_discovered:
  assumes recs: "discover_files (posix cwd) src t = Inr recs"
    and t: "valid_tree t" and f: "has_file t cs fn"
    and out: "skipped (posix cwd) (dir_path (posix cwd) src cs) \<or> endswith fn ''.zip''"
  shows "file_path (posix cwd) src cs fn \<notin> fst ` set recs"
proof
  assume "file_path (posix cwd) src cs fn \<in> fst ` set recs"
  then obtain rel where "(file_path (posix cwd) src cs fn, rel) \<in> set recs" by auto
  with discover_files_mem[OF recs] obtain cs' fn' where
    f': "has_file t cs' fn'" and keep: "\<not> skipped (posix cwd) (dir_path (posix cwd) src cs')"
      "\<not> endswith fn' ''.zip''"
    and eq: "file_path (posix cwd) src cs fn = file_path (posix cwd) src cs' fn'"
    by blast
  from has_file_valid[OF f t] has_file_valid[OF f' t] have v: "valid_name fn" "valid_name fn'"
    by auto
  from eq have "posix_join (dir_path (posix cwd) src cs) fn = posix_join (dir_path (posix cwd) src cs') fn'"
    by (simp add: file_path_def posix_def)
  from posix_join_inj[OF this v] have
    same: "(if dir_path (posix cwd) src cs = [] \<or> last (dir_path (posix cwd) src cs) = CHR ''/''
            then dir_path (posix cwd) src cs else dir_path (posix cwd) src cs @ ''/'')
         = (if dir_path (posix cwd) src cs' = [] \<or> last (dir_path (posix cwd) src cs') = CHR ''/''
            then dir_path (posix cwd) src cs' else dir_path (posix cwd) src cs' @ ''/'')"
    and fn: "fn = fn'" by auto
  have "skipped (posix cwd) (dir_path (posix cwd) src cs) = skipped (posix cwd) (dir_path (posix cwd) src cs')"
    using skipped_posix_pre[of cwd "dir_path (posix cwd) src cs"]
      skipped_posix_pre[of cwd "dir_path (posix cwd) src cs'"] same by simp
  with out keep fn show False by simp
qed



text \<open>
  Claim C9. On a POSIX host, when the path of a directory starts with \<^verbatim>\<open>./.git\<close> or holds
  \<^verbatim>\<open>/.git\<close> anywhere, as the path \<^verbatim>\<open>./.github\<close> does, no file in that directory or below it
  has a record in the output. Here \<open>cs\<close> leads to the directory and \<open>ds\<close> from there to the
  file.
\<close>

theorem substring_git_excluded:
  assumes "valid_tree t" and "has_file t (cs @ ds) fn" and "src \<noteq> []"
    and "startswith (dir_path (posix cwd) src cs) ''./.git''
         \<or> contains (dir_path (posix cwd) src cs) ''/.git''"
  shows "\<exists>recs. discover_files (posix cwd) src t = Inr recs
     \<and> file_path (posix cwd) src (cs @ ds) fn \<notin> fst ` set recs"
proof -
  from discover_files_posix_total[OF assms(3)] obtain recs where
    recs: "discover_files (posix cwd) src t = Inr recs" by blast
  have "\<forall>c \<in> set ds. valid_name c"
    using has_file_valid[OF assms(2,1)] by simp
  from dir_path_prefix[OF this]
  have "prefix (dir_path (posix cwd) src cs) (dir_path (posix cwd) src (cs @ ds))"
    by (simp add: dir_path_append)
  from substring_rule_prefix[OF assms(4) this]
  have "skipped (posix cwd) (dir_path (posix cwd) src (cs @ ds))"
    by (simp add: skipped_def)
  with not_discovered[OF recs assms(1,2)] recs show ?thesis by blast
qed

theorem substring_git_excluded_witness:
  "\<exists>recs. discover_files (posix ''/home/u'') ''.'' example_tree = Inr recs
     \<and> file_path (posix ''/home/u'') ''.'' ([''.github''] @ [''workflows'']) ''ci.yml'' \<notin> fst ` set recs"
proof -
  have t: "valid_tree example_tree" by (simp add: example_tree_def valid_name_def)
  have f: "has_file example_tree ([''.github''] @ [''workflows'']) ''ci.yml''"
    by (simp add: example_tree_def)
  have g: "startswith (dir_path (posix ''/home/u'') ''.'' [''.github'']) ''./.git''
         \<or> contains (dir_path (posix ''/home/u'') ''.'' [''.github'']) ''/.git''"
    by code_simp
  show ?thesis
    using substring_git_excluded[OF t f _ g] by simp
qed

text \<open>
  Claim C7, as amended. On a POSIX host, a file whose name ends in \<^verbatim>\<open>.zip\<close> has no record in
  the output, and a file whose name does not end in \<^verbatim>\<open>.zip\<close> has one whenever the directory
  that holds it is not skipped by the tests on \<^verbatim>\<open>.git\<close>.
\<close>

theorem archive_excluded:
  assumes "valid_tree t" and "has_file t cs fn" and "src \<noteq> []"
  shows "\<exists>recs. discover_files (posix cwd) src t = Inr recs
     \<and> (endswith fn ''.zip'' \<longrightarrow> file_path (posix cwd) src cs fn \<notin> fst ` set recs)
     \<and> (\<not> endswith fn ''.zip'' \<and> \<not> skipped (posix cwd) (dir_path (posix cwd) src cs)
          \<longrightarrow> file_path (posix cwd) src cs fn \<in> fst ` set recs)"
proof -
  from discover_files_posix_total[OF assms(3)] obtain recs where
    recs: "discover_files (posix cwd) src t = Inr recs" by blast
  have out: "endswith fn ''.zip'' \<longrightarrow> file_path (posix cwd) src cs fn \<notin> fst ` set recs"
    using not_discovered[OF recs assms(1,2)] by blast
  have "file_path (posix cwd) src cs fn \<in> fst ` set recs"
    if keep: "\<not> endswith fn ''.zip''" "\<not> skipped (posix cwd) (dir_path (posix cwd) src cs)"
  proof -
    have "dir_path (posix cwd) src cs \<noteq> []" using assms(3) by (rule dir_path_nonempty)
    then have "file_path (posix cwd) src cs fn \<noteq> []"
      by (simp add: file_path_def posix_def posix_join_nonempty)
    then obtain r where "relpath (posix cwd) (file_path (posix cwd) src cs fn) src = Some r"
      using posix_relpath_total[of "file_path (posix cwd) src cs fn" cwd src]
      by (auto simp: posix_def)
    with assms(2) keep have "(file_path (posix cwd) src cs fn, replace_backslash r) \<in> set recs"
      unfolding discover_files_mem[OF recs] by blast
    then show ?thesis by force
  qed
  with recs out show ?thesis by blast
qed

theorem archive_excluded_witness:
  "(\<exists>recs. discover_files (posix ''/home/u'') ''.'' example_tree = Inr recs
      \<and> file_path (posix ''/home/u'') ''.'' [] ''out.zip'' \<notin> fst ` set recs)
   \<and> (\<exists>recs. discover_files (posix ''/home/u'') ''.'' example_tree = Inr recs
      \<and> file_path (posix ''/home/u'') ''.'' [] ''out.zip.bak'' \<in> fst ` set recs)"
proof -
  have t: "valid_tree example_tree" by (simp add: example_tree_def valid_name_def)
  have f1: "has_file example_tree [] ''out.zip''" by (simp add: example_tree_def)
  have f2: "has_file example_tree [] ''out.zip.bak''" by (simp add: example_tree_def)
  have z1: "endswith ''out.zip'' ''.zip''" by code_simp
  have z2: "\<not> endswith ''out.zip.bak'' ''.zip''" by code_simp
  have s: "\<not> skipped (posix ''/home/u'') (dir_path (posix ''/home/u'') ''.'' [])" by code_simp
  show ?thesis
    using archive_excluded[OF t f1, of "''.''" "''/home/u''"]
      archive_excluded[OF t f2, of "''.''" "''/home/u''"] z1 z2 s
    by auto
qed

text \<open>
  Claim C7 as it was stated fails: in the example tree the file \<^verbatim>\<open>HEAD\<close> of the directory
  \<^verbatim>\<open>.git\<close> has a name that does not end in \<^verbatim>\<open>.zip\<close>, and the output, three records, does
  not hold its path \<^verbatim>\<open>./.git/HEAD\<close>.
\<close>

theorem archive_rule_counterexample:
  "has_file example_tree [''.git''] ''HEAD'' \<and> \<not> endswith ''HEAD'' ''.zip''
   \<and> discover_files (posix ''/home/u'') ''.'' example_tree
      = Inr [(''./a.txt'', ''a.txt''), (''./out.zip.bak'', ''out.zip.bak''),
             (''./a/b/c.txt'', ''a/b/c.txt'')]
   \<and> file_path (posix ''/home/u'') ''.'' [''.git''] ''HEAD'' = ''./.git/HEAD''"
  by code_simp

lemma listed_on_posix:
  assumes "startswith cwd ''/''" "plain_tree t" "discover_files (posix cwd) src t = Inr recs"
  shows "(full, rel) \<in> set recs \<longleftrightarrow>
     (\<exists>cs fn. has_file t cs fn \<and> \<not> skipped (posix cwd) (dir_path (posix cwd) src cs)
        \<and> \<not> endswith fn ''.zip'' \<and> full = file_path (posix cwd) src cs fn
        \<and> rel = replace_backslash (str_join ''/'' (cs @ [fn])))"
proof
  assume "(full, rel) \<in> set recs"
  with discover_files_mem[OF assms(3)] obtain cs fn r where
    f: "has_file t cs fn" "\<not> skipped (posix cwd) (dir_path (posix cwd) src cs)"
      "\<not> endswith fn ''.zip''" "full = file_path (posix cwd) src cs fn"
      "relpath (posix cwd) full src = Some r" "rel = replace_backslash r" by blast
  from relpath_of_file[OF assms(1,2) f(1), of src] f(4,5)
  have "r = str_join ''/'' (cs @ [fn])" by simp
  with f show "\<exists>cs fn. has_file t cs fn \<and> \<not> skipped (posix cwd) (dir_path (posix cwd) src cs)
        \<and> \<not> endswith fn ''.zip'' \<and> full = file_path (posix cwd) src cs fn
        \<and> rel = replace_backslash (str_join ''/'' (cs @ [fn]))" by blast
next
  assume "\<exists>cs fn. has_file t cs fn \<and> \<not> skipped (posix cwd) (dir_path (posix cwd) src cs)
        \<and> \<not> endswith fn ''.zip'' \<and> full = file_path (posix cwd) src cs fn
        \<and> rel = replace_backslash (str_join ''/'' (cs @ [fn]))"
  then obtain cs fn where
    f: "has_file t cs fn" "\<not> skipped (posix cwd) (dir_path (posix cwd) src cs)"
      "\<not> endswith fn ''.zip''" "full = file_path (posix cwd) src cs fn"
      "rel = replace_backslash (str_join ''/'' (cs @ [fn]))" by blast
  from relpath_of_file[OF assms(1,2) f(1), of src] f(4)
  have "relpath (posix cwd) full src = Some (str_join ''/'' (cs @ [fn]))" by simp
  with f have "\<exists>cs fn r. has_file t cs fn \<and> \<not> skipped (posix cwd) (dir_path (posix cwd) src cs)
        \<and> \<not> endswith fn ''.zip''
        \<and> full = file_path (posix cwd) src cs fn \<and> relpath (posix cwd) full src = Some r
        \<and> rel = replace_backslash r" by blast
  with discover_files_mem[OF assms(3)] show "(full, rel) \<in> set recs" by blast
qed

text \<open>The run of the example of the specification, on any host that answers as \<^verbatim>\<open>ntpath\<close>.\<close>

lemma nested_example_run:
  assumes "sep h = backslash"
    and "path_join h ''.'' ''a'' = bs [''.'', ''a'']"
    and "path_join h (bs [''.'', ''a'']) ''b'' = bs [''.'', ''a'', ''b'']"
    and "path_join h (bs [''.'', ''a'', ''b'']) ''c.txt'' = bs [''.'', ''a'', ''b'', ''c.txt'']"
    and "relpath h (bs [''.'', ''a'', ''b'', ''c.txt'']) ''.'' = Some (bs [''a'', ''b'', ''c.txt''])"
  shows "discover_files h ''.'' (Dir [(''a'', Dir [(''b'', Dir [(''c.txt'', File)])])])
     = Inr [(bs [''.'', ''a'', ''b'', ''c.txt''], ''a/b/c.txt'')]"
proof -
  have k0: "\<not> skipped h ''.''"
  proof -
    have "''.git'' \<notin> set (split backslash ''.'')
        \<and> \<not> startswith ''.'' ''./.git'' \<and> \<not> contains ''.'' ''/.git''" by code_simp
    then show ?thesis by (simp add: skipped_def assms(1))
  qed
  have k1: "\<not> skipped h (bs [''.'', ''a''])"
  proof -
    have "''.git'' \<notin> set (split backslash (bs [''.'', ''a'']))
        \<and> \<not> startswith (bs [''.'', ''a'']) ''./.git'' \<and> \<not> contains (bs [''.'', ''a'']) ''/.git''"
      by code_simp
    then show ?thesis by (simp add: skipped_def assms(1))
  qed
  have k2: "\<not> skipped h (bs [''.'', ''a'', ''b''])"
  proof -
    have "''.git'' \<notin> set (split backslash (bs [''.'', ''a'', ''b'']))
        \<and> \<not> startswith (bs [''.'', ''a'', ''b'']) ''./.git''
        \<and> \<not> contains (bs [''.'', ''a'', ''b'']) ''/.git''"
      by code_simp
    then show ?thesis by (simp add: skipped_def assms(1))
  qed
  have z: "\<not> endswith ''c.txt'' ''.zip''" by code_simp
  have r: "replace_backslash (bs [''a'', ''b'', ''c.txt'']) = ''a/b/c.txt''" by code_simp
  have w: "walk h ''.'' (Dir [(''a'', Dir [(''b'', Dir [(''c.txt'', File)])])])
      = [(''.'', [''a''], []), (bs [''.'', ''a''], [''b''], []),
         (bs [''.'', ''a'', ''b''], [], [''c.txt''])]"
    by (simp add: assms(2,3))
  have n: "scan_names h ''.'' (bs [''.'', ''a'', ''b'']) [''c.txt'']
      = Inr [(bs [''.'', ''a'', ''b'', ''c.txt''], ''a/b/c.txt'')]"
    by (simp add: z assms(4,5) r)
  from k0 k1 k2 have s: "''.git'' \<notin> set (split (sep h) ''.'')"
      "\<not> (startswith ''.'' ''./.git'' \<or> contains ''.'' ''/.git'')"
      "''.git'' \<notin> set (split (sep h) (bs [''.'', ''a'']))"
      "\<not> (startswith (bs [''.'', ''a'']) ''./.git'' \<or> contains (bs [''.'', ''a'']) ''/.git'')"
      "''.git'' \<notin> set (split (sep h) (bs [''.'', ''a'', ''b'']))"
      "\<not> (startswith (bs [''.'', ''a'', ''b'']) ''./.git'' \<or> contains (bs [''.'', ''a'', ''b'']) ''/.git'')"
    by (simp_all add: skipped_def)
  show ?thesis
    unfolding discover_files_def w
    by (simp only: scan_walk.simps scan_names.simps(1) s n if_False sum.case append_Nil append_Nil2)
qed

text \<open>
  Claim C6. On a POSIX host whose current directory is absolute, and for a tree of plain
  names, discovery returns and its records are exactly these: for each file of the tree
  that lies in no skipped directory and does not end in \<^verbatim>\<open>.zip\<close>, the path of the file, paired
  with the names that lead from \<^verbatim>\<open>SOURCE_DIR\<close> to the file, joined by slashes. On any host
  whose separator is the slash or the backslash, the relative path of a record is what
  \<^verbatim>\<open>relpath\<close> gives for the path of the file and \<^verbatim>\<open>SOURCE_DIR\<close>, with a slash wherever that has
  a separator of the host or a backslash, and every other character kept. On a host that
  joins and cuts paths as \<^verbatim>\<open>ntpath\<close> does, the file \<^verbatim>\<open>c.txt\<close> in \<^verbatim>\<open>a\b\<close> below the current
  directory gives the one record of \<^verbatim>\<open>.\a\b\c.txt\<close> with the relative path \<^verbatim>\<open>a/b/c.txt\<close>.
\<close>

theorem relative_path_normalised:
  fixes h :: host
  shows "(startswith cwd ''/'' \<and> plain_tree t \<and> src \<noteq> [] \<longrightarrow>
        (\<exists>recs. discover_files (posix cwd) src t = Inr recs
           \<and> (\<forall>full rel. (full, rel) \<in> set recs \<longleftrightarrow>
                (\<exists>cs fn. has_file t cs fn \<and> \<not> skipped (posix cwd) (dir_path (posix cwd) src cs)
                   \<and> \<not> endswith fn ''.zip'' \<and> full = file_path (posix cwd) src cs fn
                   \<and> rel = replace_backslash (str_join ''/'' (cs @ [fn]))))))
     \<and> ((sep h = CHR ''/'' \<or> sep h = backslash) \<and> discover_files h src' t' = Inr recs'
          \<and> (full', rel') \<in> set recs' \<longrightarrow>
        (\<exists>cs fn r. has_file t' cs fn \<and> full' = file_path h src' cs fn
           \<and> relpath h full' src' = Some r \<and> length rel' = length r
           \<and> (\<forall>i < length r. rel' ! i
                 = (if r ! i = sep h \<or> r ! i = backslash then CHR ''/'' else r ! i))))
     \<and> (sep h = backslash
          \<and> path_join h ''.'' ''a'' = bs [''.'', ''a'']
          \<and> path_join h (bs [''.'', ''a'']) ''b'' = bs [''.'', ''a'', ''b'']
          \<and> path_join h (bs [''.'', ''a'', ''b'']) ''c.txt'' = bs [''.'', ''a'', ''b'', ''c.txt'']
          \<and> relpath h (bs [''.'', ''a'', ''b'', ''c.txt'']) ''.'' = Some (bs [''a'', ''b'', ''c.txt''])
          \<longrightarrow> discover_files h ''.'' (Dir [(''a'', Dir [(''b'', Dir [(''c.txt'', File)])])])
                = Inr [(bs [''.'', ''a'', ''b'', ''c.txt''], ''a/b/c.txt'')])"
proof (intro conjI impI)
  assume a: "startswith cwd ''/'' \<and> plain_tree t \<and> src \<noteq> []"
  then obtain recs where recs: "discover_files (posix cwd) src t = Inr recs"
    using discover_files_posix_total[of src cwd t] by blast
  from a have "\<forall>full rel. (full, rel) \<in> set recs \<longleftrightarrow>
      (\<exists>cs fn. has_file t cs fn \<and> \<not> skipped (posix cwd) (dir_path (posix cwd) src cs)
         \<and> \<not> endswith fn ''.zip'' \<and> full = file_path (posix cwd) src cs fn
         \<and> rel = replace_backslash (str_join ''/'' (cs @ [fn])))"
    using listed_on_posix[OF _ _ recs] by blast
  with recs show "\<exists>recs. discover_files (posix cwd) src t = Inr recs
           \<and> (\<forall>full rel. (full, rel) \<in> set recs \<longleftrightarrow>
                (\<exists>cs fn. has_file t cs fn \<and> \<not> skipped (posix cwd) (dir_path (posix cwd) src cs)
                   \<and> \<not> endswith fn ''.zip'' \<and> full = file_path (posix cwd) src cs fn
                   \<and> rel = replace_backslash (str_join ''/'' (cs @ [fn]))))" by blast
next
  assume a: "(sep h = CHR ''/'' \<or> sep h = backslash) \<and> discover_files h src' t' = Inr recs'
          \<and> (full', rel') \<in> set recs'"
  then have m: "(full', rel') \<in> set recs'" and d: "discover_files h src' t' = Inr recs'"
    and sp: "sep h = CHR ''/'' \<or> sep h = backslash" by simp_all
  from m discover_files_mem[OF d] obtain cs fn r where
    f: "has_file t' cs fn" "full' = file_path h src' cs fn" "relpath h full' src' = Some r"
      "rel' = replace_backslash r" by blast
  have len: "length rel' = length r" by (simp add: f(4) replace_backslash_def)
  have seps: "\<forall>i < length r. rel' ! i
      = (if r ! i = sep h \<or> r ! i = backslash then CHR ''/'' else r ! i)"
    using sp by (auto simp: f(4) replace_backslash_def)
  from f(1,2,3) len seps
  show "\<exists>cs fn r. has_file t' cs fn \<and> full' = file_path h src' cs fn
           \<and> relpath h full' src' = Some r \<and> length rel' = length r
           \<and> (\<forall>i < length r. rel' ! i
                 = (if r ! i = sep h \<or> r ! i = backslash then CHR ''/'' else r ! i))" by blast
next
  assume "sep h = backslash
          \<and> path_join h ''.'' ''a'' = bs [''.'', ''a'']
          \<and> path_join h (bs [''.'', ''a'']) ''b'' = bs [''.'', ''a'', ''b'']
          \<and> path_join h (bs [''.'', ''a'', ''b'']) ''c.txt'' = bs [''.'', ''a'', ''b'', ''c.txt'']
          \<and> relpath h (bs [''.'', ''a'', ''b'', ''c.txt'']) ''.'' = Some (bs [''a'', ''b'', ''c.txt''])"
  then show "discover_files h ''.'' (Dir [(''a'', Dir [(''b'', Dir [(''c.txt'', File)])])])
                = Inr [(bs [''.'', ''a'', ''b'', ''c.txt''], ''a/b/c.txt'')]"
    by (intro nested_example_run) simp_all
qed


theorem relative_path_normalised_witness:
  "(\<exists>recs. discover_files (posix ''/home/u'') ''.'' example_tree = Inr recs
       \<and> (''./a/b/c.txt'', ''a/b/c.txt'') \<in> set recs)
   \<and> (\<exists>cs fn r. has_file (Dir [(''a'', Dir [(''b'', Dir [(''c.txt'', File)])])]) cs fn
         \<and> bs [''.'', ''a'', ''b'', ''c.txt''] = file_path backslash_host ''.'' cs fn
         \<and> relpath backslash_host (bs [''.'', ''a'', ''b'', ''c.txt'']) ''.'' = Some r
         \<and> length ''a/b/c.txt'' = length r)
   \<and> discover_files backslash_host ''.'' (Dir [(''a'', Dir [(''b'', Dir [(''c.txt'', File)])])])
        = Inr [(bs [''.'', ''a'', ''b'', ''c.txt''], ''a/b/c.txt'')]"
proof -
  let ?T = "Dir [(''a'', Dir [(''b'', Dir [(''c.txt'', File)])])]"
  let ?F = "bs [''.'', ''a'', ''b'', ''c.txt'']"
  note inst = relative_path_normalised[where cwd="''/home/u''" and t=example_tree and src="''.''"
      and h=backslash_host and src'="''.''" and t'="?T"
      and recs'="[(?F, ''a/b/c.txt'')]" and full'="?F" and rel'="''a/b/c.txt''"]
  have p: "startswith ''/home/u'' ''/'' \<and> plain_tree example_tree \<and> ''.'' \<noteq> ([] :: string)"
    by code_simp
  have n: "sep backslash_host = backslash
      \<and> path_join backslash_host ''.'' ''a'' = bs [''.'', ''a'']
      \<and> path_join backslash_host (bs [''.'', ''a'']) ''b'' = bs [''.'', ''a'', ''b'']
      \<and> path_join backslash_host (bs [''.'', ''a'', ''b'']) ''c.txt'' = ?F
      \<and> relpath backslash_host ?F ''.'' = Some (bs [''a'', ''b'', ''c.txt''])"
    by code_simp
  from inst n have run: "discover_files backslash_host ''.'' ?T = Inr [(?F, ''a/b/c.txt'')]"
    by blast
  from n have "sep backslash_host = CHR ''/'' \<or> sep backslash_host = backslash" by simp
  with inst run have two: "\<exists>cs fn r. has_file ?T cs fn
         \<and> ?F = file_path backslash_host ''.'' cs fn
         \<and> relpath backslash_host ?F ''.'' = Some r
         \<and> length ''a/b/c.txt'' = length r"
    by (simp only: list.set_intros(1) simp_thms) blast
  from inst p obtain recs where
    recs: "discover_files (posix ''/home/u'') ''.'' example_tree = Inr recs"
    and iff: "\<And>full rel. (full, rel) \<in> set recs \<longleftrightarrow>
        (\<exists>cs fn. has_file example_tree cs fn
           \<and> \<not> skipped (posix ''/home/u'') (dir_path (posix ''/home/u'') ''.'' cs)
           \<and> \<not> endswith fn ''.zip'' \<and> full = file_path (posix ''/home/u'') ''.'' cs fn
           \<and> rel = replace_backslash (str_join ''/'' (cs @ [fn])))"
    by blast
  have "has_file example_tree [''a'', ''b''] ''c.txt''
      \<and> \<not> skipped (posix ''/home/u'') (dir_path (posix ''/home/u'') ''.'' [''a'', ''b''])
      \<and> \<not> endswith ''c.txt'' ''.zip''
      \<and> ''./a/b/c.txt'' = file_path (posix ''/home/u'') ''.'' [''a'', ''b''] ''c.txt''
      \<and> ''a/b/c.txt'' = replace_backslash (str_join ''/'' ([''a'', ''b''] @ [''c.txt'']))"
    by code_simp
  then have "(''./a/b/c.txt'', ''a/b/c.txt'') \<in> set recs"
    unfolding iff by blast
  with recs two run show ?thesis by blast
qed

section \<open>Properties of \<^verbatim>\<open>ensure_branch\<close>\<close>

text \<open>The seven ways \<^verbatim>\<open>ensure_branch\<close> can go, with the calls each one logs.\<close>

lemma ensure_branch_cases:
  fixes cfg :: config and rem :: "'r remote" and st :: "'r run_state"
  defines "g1 \<equiv> get_request cfg (base_ref_path cfg)"
    and "g2 \<equiv> get_request cfg (branch_ref_path cfg)"
  obtains
    (base_error) s1 where "rem (fst st) g1 = (OtherFail, s1)"
      "ensure_branch cfg rem st = (Inl OtherError, (s1, snd st @ [(g1, OtherFail)]))"
  | (base_unresolved) code msg s1 where "rem (fst st) g1 = (HttpFail code msg, s1)"
      "ensure_branch cfg rem st = (Inl (SystemExit 3), (s1, snd st @ [(g1, HttpFail code msg)]))"
  | (base_malformed) r s1 e where "rem (fst st) g1 = (Body r, s1)" "object_sha r = Inl e"
      "e = KeyError \<or> e = TypeError"
      "ensure_branch cfg rem st = (Inl e, (s1, snd st @ [(g1, Body r)]))"
  | (branch_error) r s1 sha s2 where "rem (fst st) g1 = (Body r, s1)" "object_sha r = Inr sha"
      "rem s1 g2 = (OtherFail, s2)"
      "ensure_branch cfg rem st = (Inl OtherError, (s2, snd st @ [(g1, Body r), (g2, OtherFail)]))"
  | (present) r s1 sha j s2 where "rem (fst st) g1 = (Body r, s1)" "object_sha r = Inr sha"
      "rem s1 g2 = (Body j, s2)"
      "ensure_branch cfg rem st = (Inr AlreadyExists, (s2, snd st @ [(g1, Body r), (g2, Body j)]))"
  | (created) r s1 sha code msg s2 j s3 where "rem (fst st) g1 = (Body r, s1)" "object_sha r = Inr sha"
      "rem s1 g2 = (HttpFail code msg, s2)"
      "rem s2 (post_request cfg (refs_path cfg) (branch_payload cfg sha)) = (Body j, s3)"
      "ensure_branch cfg rem st = (Inr Created, (s3, snd st @ [(g1, Body r), (g2, HttpFail code msg),
          (post_request cfg (refs_path cfg) (branch_payload cfg sha), Body j)]))"
  | (creation_failed) r s1 sha code msg s2 x s3 where "rem (fst st) g1 = (Body r, s1)" "object_sha r = Inr sha"
      "rem s1 g2 = (HttpFail code msg, s2)"
      "rem s2 (post_request cfg (refs_path cfg) (branch_payload cfg sha)) = (x, s3)" "\<not> is_body x"
      "ensure_branch cfg rem st = (Inl (SystemExit 4), (s3, snd st @ [(g1, Body r), (g2, HttpFail code msg),
          (post_request cfg (refs_path cfg) (branch_payload cfg sha), x)]))"
proof -
  obtain r1 s1 where a1: "rem (fst st) g1 = (r1, s1)" by (cases "rem (fst st) g1")
  show ?thesis
  proof (cases r1)
    case OtherFail
    with a1 show ?thesis
      by (intro base_error[of s1]) (simp_all add: ensure_branch_def api_get_def urlopen_json_def g1_def)
  next
    case (HttpFail code msg)
    with a1 show ?thesis
      by (intro base_unresolved[of code msg s1]) (simp_all add: ensure_branch_def api_get_def urlopen_json_def g1_def)
  next
    case (Body r)
    note b1 = this
    show ?thesis
    proof (cases "object_sha r")
      case (Inl e)
      have "e = KeyError \<or> e = TypeError"
        using Inl by (cases r) (auto simp: object_sha_def split: option.splits sum.splits json.splits elim!: subscript.elims)
      with a1 b1 Inl show ?thesis
        by (intro base_malformed[of r s1 e]) (simp_all add: ensure_branch_def api_get_def urlopen_json_def g1_def)
    next
      case (Inr sha)
      obtain r2 s2 where a2: "rem s1 g2 = (r2, s2)" by (cases "rem s1 g2")
      show ?thesis
      proof (cases r2)
        case OtherFail
        with a1 b1 Inr a2 show ?thesis
          by (intro branch_error[of r s1 sha s2])
            (simp_all add: ensure_branch_def api_get_def urlopen_json_def g1_def g2_def)
      next
        case (Body j)
        with a1 b1 Inr a2 show ?thesis
          by (intro present[of r s1 sha j s2])
            (simp_all add: ensure_branch_def api_get_def urlopen_json_def g1_def g2_def)
      next
        case (HttpFail code msg)
        obtain x s3 where a3: "rem s2 (post_request cfg (refs_path cfg) (branch_payload cfg sha)) = (x, s3)"
          by (cases "rem s2 (post_request cfg (refs_path cfg) (branch_payload cfg sha))")
        show ?thesis
        proof (cases "is_body x")
          case True
          then obtain j where "x = Body j" by (cases x) simp_all
          with a1 b1 Inr a2 HttpFail a3 show ?thesis
            by (intro created[of r s1 sha code msg s2 j s3])
              (simp_all add: ensure_branch_def api_get_def api_post_def urlopen_json_def g1_def g2_def)
        next
          case False
          with a1 b1 Inr a2 HttpFail a3 show ?thesis
            by (intro creation_failed[of r s1 sha code msg s2 x s3])
              (auto simp: ensure_branch_def api_get_def api_post_def urlopen_json_def g1_def g2_def
                split: response.splits)
        qed
      qed
    qed
  qed
qed

lemma ensure_branch_present:
  assumes "rem (fst st) (get_request cfg (base_ref_path cfg)) = (Body r, s1)"
    and "object_sha r = Inr sha"
    and "rem s1 (get_request cfg (branch_ref_path cfg)) = (Body j, s2)"
  shows "ensure_branch cfg rem st =
     (Inr AlreadyExists,
      (s2, snd st @ [(get_request cfg (base_ref_path cfg), Body r),
                     (get_request cfg (branch_ref_path cfg), Body j)]))"
  using assms by (simp add: ensure_branch_def api_get_def urlopen_json_def)

lemma ensure_branch_absent:
  assumes "rem (fst st) (get_request cfg (base_ref_path cfg)) = (Body r, s1)"
    and "object_sha r = Inr sha"
    and "rem s1 (get_request cfg (branch_ref_path cfg)) = (HttpFail code msg, s2)"
    and "rem s2 (post_request cfg (refs_path cfg) (branch_payload cfg sha)) = (x, s3)"
  shows "ensure_branch cfg rem st =
     ((if is_body x then Inr Created else Inl (SystemExit 4)),
      (s3, snd st @ [(get_request cfg (base_ref_path cfg), Body r),
                     (get_request cfg (branch_ref_path cfg), HttpFail code msg),
                     (post_request cfg (refs_path cfg) (branch_payload cfg sha), x)]))"
  using assms by (cases x) (simp_all add: ensure_branch_def api_get_def api_post_def urlopen_json_def)

lemma posts_two_gets_post:
  "posts (tr @ [(get_request cfg p, a), (get_request cfg q, b), (post_request cfg u d, c)])
     = posts tr @ [(post_request cfg u d, c)]"
  by (simp add: posts_def get_request_def post_request_def)

lemma posts_two_gets:
  "posts (tr @ [(get_request cfg p, a), (get_request cfg q, b)]) = posts tr"
  by (simp add: posts_def get_request_def)

text \<open>
  Claim C3. Let the base branch resolve. When the query for the target branch is answered
  with an HTTP error (the branch is absent), \<^verbatim>\<open>ensure_branch\<close> makes exactly one POST; when
  it is answered with a body (the branch is present), it makes none and reports that the
  branch exists. Over a store that keeps its refs, a call that created the branch is
  followed by a call that reports that the branch exists, and the log of the two calls
  holds exactly one POST.
\<close>

theorem ensure_branch_idempotent:
  assumes base: "rem s0 (get_request cfg (base_ref_path cfg)) = (Body r, s1)"
    and sha: "object_sha r = Inr sha"
  shows "(\<forall>code msg s2. rem s1 (get_request cfg (branch_ref_path cfg)) = (HttpFail code msg, s2)
            \<longrightarrow> length (posts (snd (snd (ensure_branch cfg rem (s0, []))))) = 1)
     \<and> (\<forall>j s2. rem s1 (get_request cfg (branch_ref_path cfg)) = (Body j, s2)
            \<longrightarrow> fst (ensure_branch cfg rem (s0, [])) = Inr AlreadyExists
                \<and> posts (snd (snd (ensure_branch cfg rem (s0, [])))) = [])
     \<and> (keeps_refs cfg rem
            \<longrightarrow> (\<forall>st1. ensure_branch cfg rem (s0, []) = (Inr Created, st1)
                   \<longrightarrow> (\<exists>st2. ensure_branch cfg rem st1 = (Inr AlreadyExists, st2)
                          \<and> length (posts (snd st2)) = 1)))"
proof (intro conjI allI impI)
  fix code msg s2
  assume g2: "rem s1 (get_request cfg (branch_ref_path cfg)) = (HttpFail code msg, s2)"
  obtain x s3 where p: "rem s2 (post_request cfg (refs_path cfg) (branch_payload cfg sha)) = (x, s3)"
    by (cases "rem s2 (post_request cfg (refs_path cfg) (branch_payload cfg sha))")
  have "posts (snd (snd (ensure_branch cfg rem (s0, [])))) =
      [(post_request cfg (refs_path cfg) (branch_payload cfg sha), x)]"
    using ensure_branch_absent[where st="(s0, [])" and rem=rem and cfg=cfg, OF _ sha g2 p] base
      posts_two_gets_post[of "[]"]
    by (simp add: posts_def)
  then show "length (posts (snd (snd (ensure_branch cfg rem (s0, []))))) = 1" by simp
next
  fix j s2
  assume g2: "rem s1 (get_request cfg (branch_ref_path cfg)) = (Body j, s2)"
  have e: "ensure_branch cfg rem (s0, []) =
     (Inr AlreadyExists,
      (s2, [(get_request cfg (base_ref_path cfg), Body r),
            (get_request cfg (branch_ref_path cfg), Body j)]))"
    using ensure_branch_present[where st="(s0, [])" and rem=rem and cfg=cfg, OF _ sha g2] base
    by simp
  show "fst (ensure_branch cfg rem (s0, [])) = Inr AlreadyExists" by (simp add: e)
  show "posts (snd (snd (ensure_branch cfg rem (s0, [])))) = []"
    using posts_two_gets[of "[]"] by (simp add: e posts_def)
next
  fix st1
  assume keeps: "keeps_refs cfg rem"
    and first: "ensure_branch cfg rem (s0, []) = (Inr Created, st1)"
  let ?g1 = "get_request cfg (base_ref_path cfg)"
  let ?g2 = "get_request cfg (branch_ref_path cfg)"
  let ?p = "post_request cfg (refs_path cfg) (branch_payload cfg sha)"
  have reads: "\<And>s rq rq'. meth rq = GET \<Longrightarrow> meth rq' = GET
      \<Longrightarrow> fst (rem (snd (rem s rq)) rq') = fst (rem s rq')"
    using keeps by (simp add: keeps_refs_def)
  have made: "\<And>s sha j s'. rem s (post_request cfg (refs_path cfg) (branch_payload cfg sha)) = (Body j, s')
      \<Longrightarrow> is_body (fst (rem s' ?g2)) \<and> fst (rem s' ?g1) = fst (rem s ?g1)"
    using keeps unfolding keeps_refs_def by blast
  have get: "meth ?g1 = GET" "meth ?g2 = GET" by (simp_all add: get_request_def)
  obtain r2 s2 where g2: "rem s1 ?g2 = (r2, s2)" by (cases "rem s1 ?g2")
  have g2': "\<exists>code msg. r2 = HttpFail code msg"
  proof (cases r2)
    case (Body j)
    with base sha g2 first show ?thesis
      by (simp add: ensure_branch_def api_get_def urlopen_json_def)
  next
    case OtherFail
    with base sha g2 first show ?thesis
      by (simp add: ensure_branch_def api_get_def urlopen_json_def)
  next
    case (HttpFail code msg)
    then show ?thesis by blast
  qed
  then obtain code msg where r2: "r2 = HttpFail code msg" by blast
  obtain x s3 where p: "rem s2 ?p = (x, s3)" by (cases "rem s2 ?p")
  have run1: "ensure_branch cfg rem (s0, []) =
     ((if is_body x then Inr Created else Inl (SystemExit 4)),
      (s3, [(?g1, Body r), (?g2, HttpFail code msg), (?p, x)]))"
    using ensure_branch_absent[where st="(s0, [])" and rem=rem and cfg=cfg, OF _ sha _ p] base g2 r2
    by simp
  with first have x: "is_body x" and st1: "st1 = (s3, [(?g1, Body r), (?g2, HttpFail code msg), (?p, x)])"
    by (auto split: if_splits)
  from x obtain j where xj: "x = Body j" by (cases x) simp_all
  from made[OF p[unfolded xj]] have found: "is_body (fst (rem s3 ?g2))"
    and same: "fst (rem s3 ?g1) = fst (rem s2 ?g1)" by simp_all
  have "fst (rem s2 ?g1) = fst (rem s1 ?g1)"
    using reads[OF get(2) get(1), of s1] g2 by simp
  also have "\<dots> = fst (rem s0 ?g1)"
    using reads[OF get(1) get(1), of s0] base by simp
  finally have "fst (rem s3 ?g1) = Body r" using same base by simp
  then obtain s4 where b2: "rem s3 ?g1 = (Body r, s4)" by (cases "rem s3 ?g1") simp
  have "fst (rem s4 ?g2) = fst (rem s3 ?g2)"
    using reads[OF get(1) get(2), of s3] b2 by simp
  with found obtain j' s5 where t2: "rem s4 ?g2 = (Body j', s5)"
    by (cases "rem s4 ?g2"; cases "fst (rem s4 ?g2)") auto
  have run2: "ensure_branch cfg rem st1 =
     (Inr AlreadyExists, (s5, snd st1 @ [(?g1, Body r), (?g2, Body j')]))"
    using ensure_branch_present[where st=st1 and rem=rem and cfg=cfg, OF _ sha t2] b2
    by (simp add: st1)
  have "length (posts (snd st1 @ [(?g1, Body r), (?g2, Body j')])) = 1"
    by (simp add: st1 posts_def get_request_def post_request_def)
  with run2 show "\<exists>st2. ensure_branch cfg rem st1 = (Inr AlreadyExists, st2)
                          \<and> length (posts (snd st2)) = 1"
    by simp
qed

lemma keeps_refs_ref_store: "keeps_refs example_config ref_store"
  unfolding keeps_refs_def
proof (intro conjI allI impI)
  fix s :: "string list" and rq rq' :: request
  assume "meth rq = GET \<and> meth rq' = GET"
  then show "fst (ref_store (snd (ref_store s rq)) rq') = fst (ref_store s rq')"
    by (simp add: ref_store_def)
next
  fix s s' :: "string list" and sha j
  assume "ref_store s (post_request example_config (refs_path example_config)
            (branch_payload example_config sha)) = (Body j, s')"
  then have s': "s' = (API_BASE @ ''/repos/o/r/git/ref/heads/feature/webssh-verifier'') # s"
    by (simp add: ref_store_def post_request_def request_field_def branch_payload_def
        example_config_def)
  show "is_body (fst (ref_store s' (get_request example_config (branch_ref_path example_config))))"
    by (simp add: s' ref_store_def get_request_def branch_ref_path_def example_config_def)
  show "fst (ref_store s' (get_request example_config (base_ref_path example_config)))
       = fst (ref_store s (get_request example_config (base_ref_path example_config)))"
    by (simp add: s' ref_store_def get_request_def base_ref_path_def example_config_def)
qed

theorem ensure_branch_idempotent_witness:
  "\<exists>st1 st2. ensure_branch example_config ref_store
       ([API_BASE @ ''/repos/o/r/git/ref/heads/main''], []) = (Inr Created, st1)
     \<and> ensure_branch example_config ref_store st1 = (Inr AlreadyExists, st2)
     \<and> length (posts (snd st2)) = 1"
proof -
  have base: "ref_store [API_BASE @ ''/repos/o/r/git/ref/heads/main'']
                (get_request example_config (base_ref_path example_config))
              = (Body (JObj [(''object'', JObj [(''sha'', JStr ''abc123'')])]),
                 [API_BASE @ ''/repos/o/r/git/ref/heads/main''])"
    by (simp add: ref_store_def get_request_def base_ref_path_def example_config_def)
  have sha: "object_sha (JObj [(''object'', JObj [(''sha'', JStr ''abc123'')])]) = Inr (JStr ''abc123'')"
    by (simp add: object_sha_def)
  have first: "fst (ensure_branch example_config ref_store
       ([API_BASE @ ''/repos/o/r/git/ref/heads/main''], [])) = Inr Created"
    by code_simp
  show ?thesis
    using ensure_branch_idempotent[where rem=ref_store and cfg=example_config, OF base sha]
      keeps_refs_ref_store first
    by (metis prod.collapse)
qed

section \<open>Properties of the upload loop\<close>

lemma upload_file_cases:
  fixes cfg :: config and rem :: "'r remote" and st :: "'r run_state"
  obtains
    (unreadable) "open_rb (fst fl) = None"
      "upload_file cfg open_rb rem fl st = (Inl OSError, st)"
  | (unencodable) "\<not> utf8_valid (snd fl)"
      "upload_file cfg open_rb rem fl st = (Inl UnicodeEncodeError, st)"
  | (attempted) g payload r2 s2 where
      "meth (fst g) = GET"
      "upload_file cfg open_rb rem fl st =
         (put_outcome r2,
          (s2, snd st @ [g, (put_request cfg (contents_path cfg (percent_encode (snd fl))) payload, r2)]))"
proof (cases "open_rb (fst fl)")
  case None
  obtain p rel where "fl = (p, rel)" by (cases fl)
  with None show ?thesis
    by (intro unreadable) (simp_all add: upload_file_def)
next
  case (Some content)
  obtain p rel where fl: "fl = (p, rel)" by (cases fl)
  show ?thesis
  proof (cases "utf8_valid rel")
    case False
    then have "quote rel = Inl UnicodeEncodeError" by (simp add: quote_def)
    from upload_file_unencodable[where rem=rem and open_rb=open_rb and st=st and cfg=cfg, OF _ this]
      Some False
    show ?thesis by (intro unencodable) (simp_all add: fl)
  next
    case True
    let ?q = "percent_encode rel"
    from True have qu: "quote rel = Inr ?q" by (simp add: quote_def)
    obtain r1 s1 where q: "rem (fst st) (get_request cfg (query_path cfg ?q)) = (r1, s1)"
      by (cases "rem (fst st) (get_request cfg (query_path cfg ?q))")
    obtain sha where ex: "existing_sha cfg rem rel st
        = (sha, (s1, snd st @ [(get_request cfg (query_path cfg ?q), r1)]))"
      using existing_sha_eq[where rem=rem and st=st and cfg=cfg and rel=rel and quoted="?q"
          and ?r1.0=r1 and ?s1.0=s1] q qu
      by simp
    obtain r2 s2 where put: "rem s1 (put_request cfg (contents_path cfg ?q)
                           (upload_payload cfg rel (b64encode content) sha)) = (r2, s2)"
      by (cases "rem s1 (put_request cfg (contents_path cfg ?q)
                           (upload_payload cfg rel (b64encode content) sha))")
    have "upload_file cfg open_rb rem (p, rel) st =
       (put_outcome r2,
        (s2, snd st @ [(get_request cfg (query_path cfg ?q), r1),
             (put_request cfg (contents_path cfg ?q)
                (upload_payload cfg rel (b64encode content) sha), r2)]))"
      using upload_file_eq[where rem=rem and open_rb=open_rb and st=st and cfg=cfg and rel=rel
          and p=p, OF _ qu ex] put Some fl
      by simp
    then show ?thesis
      by (intro attempted[of "(get_request cfg (query_path cfg ?q), r1)" r2 s2
            "upload_payload cfg rel (b64encode content) sha"])
         (simp_all add: fl get_request_def)
  qed
qed

lemma put_outcome_Inr: "put_outcome r = Inr u \<longleftrightarrow> is_body r"
  by (cases r rule: put_outcome.cases) simp_all

lemma puts_get_put:
  "meth (fst g) = GET \<Longrightarrow> puts (g # (put_request cfg p d, r) # ev) = (put_request cfg p d, r) # puts ev"
  by (simp add: puts_def put_request_def)

lemma posts_get_put:
  "meth (fst g) = GET \<Longrightarrow> posts (g # (put_request cfg p d, r) # ev) = posts ev"
  by (simp add: posts_def put_request_def)

text \<open>
  The log of the loop: the PUTs are those of a front part of the list of files, in its
  order; all of them were accepted, except that the last one may have failed, and then the
  loop ended there with the outcome of that PUT.
\<close>

lemma upload_all_puts:
  assumes "upload_all cfg open_rb rem files st = (res, st')"
  shows "\<exists>ev oks bad. snd st' = snd st @ ev \<and> posts ev = [] \<and> puts ev = oks @ bad
     \<and> (\<forall>e \<in> set oks. is_body (snd e))
     \<and> map (\<lambda>e. url (fst e)) (puts ev) = map (put_url cfg) (take (length (puts ev)) files)
     \<and> ((bad = [] \<and> (res = Inr () \<and> length oks = length files
                       \<or> (res = Inl OSError \<or> res = Inl UnicodeEncodeError) \<and> length oks < length files))
         \<or> (\<exists>rq r. bad = [(rq, r)] \<and> \<not> is_body r \<and> res = put_outcome r))"
  using assms
proof (induction files arbitrary: st)
  case Nil
  then show ?case
    by (intro exI[of _ "[]"]) (auto simp: puts_def posts_def)
next
  case (Cons fl files)
  show ?case
  proof (cases rule: upload_file_cases[of open_rb fl cfg rem st])
    case unreadable
    with Cons.prems have "res = Inl OSError" "st' = st" by auto
    then show ?thesis
      by (intro exI[of _ "[]"]) (auto simp: puts_def posts_def)
  next
    case unencodable
    with Cons.prems have "res = Inl UnicodeEncodeError" "st' = st" by auto
    then show ?thesis
      by (intro exI[of _ "[]"]) (auto simp: puts_def posts_def)
  next
    case (attempted g payload r2 s2)
    let ?put = "(put_request cfg (contents_path cfg (percent_encode (snd fl))) payload, r2)"
    let ?st1 = "(s2, snd st @ [g, ?put])"
    have u: "url (fst ?put) = put_url cfg fl"
      by (simp add: put_request_def put_url_def)
    show ?thesis
    proof (cases "is_body r2")
      case False
      then have "\<And>u. put_outcome r2 \<noteq> Inr u" by (simp add: put_outcome_Inr)
      then obtain e where e: "put_outcome r2 = Inl e" by (cases "put_outcome r2") auto
      with Cons.prems attempted(2) have res: "res = put_outcome r2" "st' = ?st1" by auto
      show ?thesis
        apply (rule exI[of _ "[g, ?put]"], rule exI[of _ "[]"], rule exI[of _ "[?put]"])
        using False res attempted(1) u
        by (simp add: puts_get_put posts_get_put) (simp add: puts_def posts_def)
    next
      case True
      then have "put_outcome r2 = Inr ()" by (simp add: put_outcome_Inr)
      with Cons.prems attempted(2) have rest: "upload_all cfg open_rb rem files ?st1 = (res, st')"
        by simp
      from Cons.IH[OF rest] obtain ev oks bad where
        ih: "snd st' = snd ?st1 @ ev" "posts ev = []" "puts ev = oks @ bad"
          "\<forall>e \<in> set oks. is_body (snd e)"
          "map (\<lambda>e. url (fst e)) (puts ev) = map (put_url cfg) (take (length (puts ev)) files)"
          "(bad = [] \<and> (res = Inr () \<and> length oks = length files
                       \<or> (res = Inl OSError \<or> res = Inl UnicodeEncodeError) \<and> length oks < length files))
           \<or> (\<exists>rq r. bad = [(rq, r)] \<and> \<not> is_body r \<and> res = put_outcome r)"
        by blast
      show ?thesis
        apply (rule exI[of _ "g # ?put # ev"], rule exI[of _ "?put # oks"], rule exI[of _ bad])
        using ih True attempted(1) u
        by (auto simp: puts_get_put posts_get_put)
    qed
  qed
qed

section \<open>Properties of a run of the script\<close>

lemma scan_names_error: "scan_names h src root fns = Inl x \<Longrightarrow> x = ValueError"
  by (induction fns) (auto simp: Let_def split: if_splits option.splits sum.splits)

lemma scan_walk_error: "scan_walk h src ts = Inl x \<Longrightarrow> x = ValueError"
proof (induction ts)
  case Nil
  then show ?case by simp
next
  case (Cons t ts)
  obtain root ds fns where "t = (root, ds, fns)" by (cases t)
  with Cons show ?case
    by (auto split: if_splits sum.splits dest: scan_names_error)
qed

lemma discover_files_error: "discover_files h src t = Inl x \<Longrightarrow> x = ValueError"
  unfolding discover_files_def by (rule scan_walk_error)

lemma env_or_nonempty: "dflt \<noteq> [] \<Longrightarrow> env_or env name dflt \<noteq> []"
  by (simp add: env_or_def split: option.splits)

lemma read_config_missing: "credential_missing w \<Longrightarrow> read_config w = Inl (SystemExit 2)"
  by (auto simp: credential_missing_def read_config_def)

lemma read_config_present:
  assumes "\<not> credential_missing w"
  shows "read_config w = Inl EOFError \<or> (\<exists>cfg. read_config w = Inr cfg \<and> SOURCE_DIR cfg \<noteq> [])"
proof -
  from assms obtain token where token: "environ w ''GITHUB_TOKEN'' = Some token" "token \<noteq> []"
    by (auto simp: credential_missing_def)
  show ?thesis
  proof (cases "case environ w ''REPO'' of
                     None \<Rightarrow> stdin_answer w
                   | Some v \<Rightarrow> if v = [] then stdin_answer w else Some v")
    case None
    with token show ?thesis by (simp add: read_config_def)
  next
    case (Some repo)
    with token show ?thesis by (simp add: read_config_def env_or_nonempty)
  qed
qed

lemma script_cases:
  fixes w :: "'r world"
  obtains
    (missing) "credential_missing w" "script w = (Inl (SystemExit 2), [])"
  | (no_repo) "\<not> credential_missing w" "read_config w = Inl EOFError" "script w = (Inl EOFError, [])"
  | (branch_failed) cfg e st1 where "\<not> credential_missing w" "read_config w = Inr cfg"
      "ensure_branch cfg (remote_api w) (remote_start w, []) = (Inl e, st1)"
      "script w = (Inl e, snd st1)"
  | (walk_failed) cfg b st1 e where "\<not> credential_missing w" "read_config w = Inr cfg"
      "ensure_branch cfg (remote_api w) (remote_start w, []) = (Inr b, st1)"
      "discover_files (os_host w) (SOURCE_DIR cfg) (source_tree w) = Inl e"
      "script w = (Inl ValueError, snd st1)"
  | (uploading) cfg b st1 files res st2 where "\<not> credential_missing w" "read_config w = Inr cfg"
      "ensure_branch cfg (remote_api w) (remote_start w, []) = (Inr b, st1)"
      "discover_files (os_host w) (SOURCE_DIR cfg) (source_tree w) = Inr files"
      "upload_all cfg (file_bytes w) (remote_api w) files st1 = (res, st2)"
      "script w = (res, snd st2)"
proof (cases "credential_missing w")
  case True
  with read_config_missing[OF True] show ?thesis
    by (intro missing) (simp_all add: script_def)
next
  case False
  from read_config_present[OF False] show ?thesis
  proof
    assume "read_config w = Inl EOFError"
    with False show ?thesis by (intro no_repo) (simp_all add: script_def)
  next
    assume "\<exists>cfg. read_config w = Inr cfg \<and> SOURCE_DIR cfg \<noteq> []"
    then obtain cfg where cfg: "read_config w = Inr cfg" by blast
    obtain r1 st1 where e: "ensure_branch cfg (remote_api w) (remote_start w, []) = (r1, st1)"
      by (cases "ensure_branch cfg (remote_api w) (remote_start w, [])")
    show ?thesis
    proof (cases r1)
      case (Inl x)
      with False cfg e show ?thesis
        by (intro branch_failed[of cfg x st1]) (simp_all add: script_def main_def)
    next
      case (Inr b)
      show ?thesis
      proof (cases "discover_files (os_host w) (SOURCE_DIR cfg) (source_tree w)")
        case (Inl x)
        have "x = ValueError" using Inl by (rule discover_files_error)
        with Inl Inr False cfg e show ?thesis
          by (intro walk_failed[of cfg b st1 x]) (simp_all add: script_def main_def)
      next
        case files: (Inr files)
        obtain res st2 where u: "upload_all cfg (file_bytes w) (remote_api w) files st1 = (res, st2)"
          by (cases "upload_all cfg (file_bytes w) (remote_api w) files st1")
        with files Inr False cfg e show ?thesis
          by (intro uploading[of cfg b st1 files res st2]) (simp_all add: script_def main_def)
      qed
    qed
  qed
qed

lemma ensure_branch_failed:
  assumes "ensure_branch cfg rem (s0, []) = (Inl e, st1)"
  shows "puts (snd st1) = [] \<and> snd st1 \<noteq> []
     \<and> (is_http_fail (snd (hd (snd st1))) \<longleftrightarrow> e = SystemExit 3)
     \<and> (creation_failed (snd st1) \<longleftrightarrow> e = SystemExit 4)
     \<and> (e = SystemExit 3 \<or> e = SystemExit 4 \<or> exit_status (Inl e) = 1)"
  using assms
  by (cases rule: ensure_branch_cases[of rem "(s0, [])" cfg])
     (auto simp: puts_def creation_failed_def get_request_def post_request_def)

lemma ensure_branch_returned:
  assumes "ensure_branch cfg rem (s0, []) = (Inr b, st1)"
  shows "puts (snd st1) = [] \<and> snd st1 \<noteq> []
     \<and> \<not> is_http_fail (snd (hd (snd st1))) \<and> \<not> creation_failed (snd st1)"
  using assms
  by (cases rule: ensure_branch_cases[of rem "(s0, [])" cfg])
     (auto simp: puts_def creation_failed_def get_request_def post_request_def)

lemma put_outcome_status:
  "exit_status (put_outcome r) = (case r of Body j \<Rightarrow> 0 | HttpFail code (Some t) \<Rightarrow> 5 | _ \<Rightarrow> 1)"
  by (cases r rule: put_outcome.cases) simp_all

lemma puts_append: "puts (xs @ ys) = puts xs @ puts ys"
  by (simp add: puts_def)


lemma no_posts_no_failure: "posts ev = [] \<Longrightarrow> \<not> creation_failed ev"
  by (auto simp: posts_def creation_failed_def filter_empty_conv)

lemma creation_failed_append: "creation_failed (xs @ ys) \<longleftrightarrow> creation_failed xs \<or> creation_failed ys"
  by (auto simp: creation_failed_def)

lemma uploading_log:
  assumes ensure: "ensure_branch cfg rem (s0, []) = (Inr b, st1)"
    and up: "upload_all cfg open_rb rem files st1 = (res, st2)"
  obtains oks bad where
    "puts (snd st2) = oks @ bad" "\<forall>e \<in> set oks. is_body (snd e)"
    "map (\<lambda>e. url (fst e)) (puts (snd st2)) = map (put_url cfg) (take (length (puts (snd st2))) files)"
    "(bad = [] \<and> (res = Inr () \<and> length oks = length files
                    \<or> (res = Inl OSError \<or> res = Inl UnicodeEncodeError) \<and> length oks < length files))
     \<or> (\<exists>rq r. bad = [(rq, r)] \<and> \<not> is_body r \<and> res = put_outcome r)"
    "\<not> base_http_error (snd st2)" "\<not> creation_failed (snd st2)"
proof -
  from upload_all_puts[OF up] obtain ev oks bad where
    ev: "snd st2 = snd st1 @ ev" "posts ev = []" "puts ev = oks @ bad"
      "\<forall>e \<in> set oks. is_body (snd e)"
      "map (\<lambda>e. url (fst e)) (puts ev) = map (put_url cfg) (take (length (puts ev)) files)"
      "(bad = [] \<and> (res = Inr () \<and> length oks = length files
                    \<or> (res = Inl OSError \<or> res = Inl UnicodeEncodeError) \<and> length oks < length files))
       \<or> (\<exists>rq r. bad = [(rq, r)] \<and> \<not> is_body r \<and> res = put_outcome r)"
    by blast
  from ensure_branch_returned[OF ensure] have
    b: "puts (snd st1) = []" "snd st1 \<noteq> []" "\<not> is_http_fail (snd (hd (snd st1)))"
      "\<not> creation_failed (snd st1)" by simp_all
  have p: "puts (snd st2) = puts ev" by (simp add: ev(1) puts_append b(1))
  show ?thesis
  proof (rule that[of oks bad])
    show "puts (snd st2) = oks @ bad" by (simp add: p ev(3))
    show "\<forall>e \<in> set oks. is_body (snd e)" by (rule ev(4))
    show "map (\<lambda>e. url (fst e)) (puts (snd st2)) = map (put_url cfg) (take (length (puts (snd st2))) files)"
      by (simp add: p ev(5))
    show "(bad = [] \<and> (res = Inr () \<and> length oks = length files
                    \<or> (res = Inl OSError \<or> res = Inl UnicodeEncodeError) \<and> length oks < length files))
     \<or> (\<exists>rq r. bad = [(rq, r)] \<and> \<not> is_body r \<and> res = put_outcome r)" by (rule ev(6))
    show "\<not> base_http_error (snd st2)" using b(2,3) by (simp add: base_http_error_def ev(1))
    show "\<not> creation_failed (snd st2)"
      using b(4) no_posts_no_failure[OF ev(2)] by (simp add: ev(1) creation_failed_append)
  qed
qed

lemma body_not_http_fail: "is_body r \<Longrightarrow> \<not> is_http_fail r"
  by (cases r) simp_all

lemma last_puts:
  assumes "tr \<noteq> []" "meth (fst (last tr)) = PUT"
  shows "last (puts tr) = last tr"
proof -
  from assms(1) obtain xs x where tr: "tr = xs @ [x]" by (cases tr rule: rev_cases) auto
  with assms(2) show ?thesis by (simp add: puts_def)
qed

text \<open>When the loop ends on a PUT that failed, that PUT is the last call of the log.\<close>

lemma upload_all_stops:
  assumes "upload_all cfg open_rb rem files st = (res, st')"
    and "res \<noteq> Inr ()" and "res \<noteq> Inl OSError" and "res \<noteq> Inl UnicodeEncodeError"
  shows "snd st' \<noteq> [] \<and> meth (fst (last (snd st'))) = PUT"
  using assms
proof (induction files arbitrary: st)
  case Nil
  then show ?case by simp
next
  case (Cons fl files)
  show ?case
  proof (cases rule: upload_file_cases[of open_rb fl cfg rem st])
    case unreadable
    with Cons.prems show ?thesis by simp
  next
    case unencodable
    with Cons.prems show ?thesis by simp
  next
    case (attempted g payload r2 s2)
    show ?thesis
    proof (cases "is_body r2")
      case True
      then have "put_outcome r2 = Inr ()" by (simp add: put_outcome_Inr)
      with Cons.prems(1) attempted(2) have
        "upload_all cfg open_rb rem files
           (s2, snd st @ [g, (put_request cfg (contents_path cfg (percent_encode (snd fl))) payload, r2)])
           = (res, st')"
        by simp
      from Cons.IH[OF this Cons.prems(2,3,4)] show ?thesis .
    next
      case False
      then have "\<And>u. put_outcome r2 \<noteq> Inr u" by (simp add: put_outcome_Inr)
      then obtain e where "put_outcome r2 = Inl e" by (cases "put_outcome r2") auto
      with Cons.prems(1) attempted(2) have
        "st' = (s2, snd st @ [g, (put_request cfg (contents_path cfg (percent_encode (snd fl))) payload, r2)])"
        by simp
      then show ?thesis by (simp add: put_request_def)
    qed
  qed
qed

text \<open>
  Claim C2. In a run that read its configuration and listed its files, let the write
  number \<open>k + 1\<close> of the log be answered with an HTTP error. Then the log holds exactly
  \<open>k + 1\<close> writes, they are the PUTs of the first \<open>k + 1\<close> files in their order, the \<open>k\<close>
  writes before it were accepted, that write is the last call of the whole log, so that
  nothing is asked about a later file, and the exit status is not zero.
\<close>

theorem fail_fast:
  fixes w :: "'r world"
  assumes cfg: "read_config w = Inr cfg"
    and files: "discover_files (os_host w) (SOURCE_DIR cfg) (source_tree w) = Inr files"
    and k: "k < length (puts (snd (script w)))"
    and failed: "is_http_fail (snd (puts (snd (script w)) ! k))"
  shows "length (puts (snd (script w))) = Suc k
     \<and> map (\<lambda>e. url (fst e)) (puts (snd (script w))) = map (put_url cfg) (take (Suc k) files)
     \<and> (\<forall>j < k. is_body (snd (puts (snd (script w)) ! j)))
     \<and> exit_status (fst (script w)) \<noteq> 0
     \<and> last (snd (script w)) = puts (snd (script w)) ! k"
proof (cases rule: script_cases[of w])
  case missing
  then have "puts (snd (script w)) = []" by (simp add: puts_def)
  with k show ?thesis by simp
next
  case no_repo
  then have "puts (snd (script w)) = []" by (simp add: puts_def)
  with k show ?thesis by simp
next
  case (branch_failed cfg' e st1)
  from ensure_branch_failed[OF branch_failed(3)] have "puts (snd st1) = []" by (rule conjunct1)
  then have "puts (snd (script w)) = []" by (simp add: branch_failed(4))
  with k show ?thesis by simp
next
  case (walk_failed cfg' b st1 e)
  from ensure_branch_returned[OF walk_failed(3)] have "puts (snd st1) = []" by (rule conjunct1)
  then have "puts (snd (script w)) = []" by (simp add: walk_failed(5))
  with k show ?thesis by simp
next
  case (uploading cfg' b st1 files' res st2)
  from uploading(2,4) cfg files have same: "cfg' = cfg" "files' = files" by simp_all
  have tr: "snd (script w) = snd st2" "fst (script w) = res" by (simp_all add: uploading(6))
  show ?thesis
  proof (rule uploading_log[OF uploading(3,5)])
  fix oks bad
  assume log: "puts (snd st2) = oks @ bad" "\<forall>e \<in> set oks. is_body (snd e)"
      "map (\<lambda>e. url (fst e)) (puts (snd st2)) = map (put_url cfg') (take (length (puts (snd st2))) files')"
      "(bad = [] \<and> (res = Inr () \<and> length oks = length files'
                    \<or> (res = Inl OSError \<or> res = Inl UnicodeEncodeError) \<and> length oks < length files'))
       \<or> (\<exists>rq r. bad = [(rq, r)] \<and> \<not> is_body r \<and> res = put_outcome r)"
  have notok: "\<not> k < length oks"
  proof
    assume "k < length oks"
    then have "(oks @ bad) ! k \<in> set oks" by (simp add: nth_append)
    with log(2) have "is_body (snd ((oks @ bad) ! k))" by blast
    with failed show False by (simp add: tr log(1) body_not_http_fail)
  qed
  with k have "bad \<noteq> []" by (auto simp: tr log(1))
  with log(4) obtain rq r where bad: "bad = [(rq, r)]" "res = put_outcome r" by blast
  from k notok have kk: "k = length oks" by (simp add: tr log(1) bad(1))
  have len: "length (puts (snd (script w))) = Suc k" by (simp add: tr log(1) bad(1) kk)
  have urls: "map (\<lambda>e. url (fst e)) (puts (snd (script w))) = map (put_url cfg) (take (Suc k) files)"
    using log(3) len by (simp add: tr same)
  have before: "\<forall>j < k. is_body (snd (puts (snd (script w)) ! j))"
    using log(2) by (simp add: tr log(1) kk nth_append)
  have "is_http_fail r" using failed by (simp add: tr log(1) bad(1) kk)
  then have st: "exit_status (fst (script w)) \<noteq> 0" "res \<noteq> Inr ()" "res \<noteq> Inl OSError"
      "res \<noteq> Inl UnicodeEncodeError"
    by (cases r rule: put_outcome.cases; simp add: tr bad(2))+
  from upload_all_stops[OF uploading(5) st(2,3,4)] have
    "last (puts (snd st2)) = last (snd st2)" by (simp add: last_puts)
  then have "last (snd (script w)) = puts (snd (script w)) ! k"
    by (simp add: tr log(1) bad(1) kk)
  with len urls before st(1) show ?thesis by blast
  qed
qed

theorem fail_fast_witness:
  "length (puts (snd (script three_files))) = Suc 1
     \<and> map (\<lambda>e. url (fst e)) (puts (snd (script three_files)))
         = [''https://api.github.com/repos/o/r/contents/one.txt'',
            ''https://api.github.com/repos/o/r/contents/two.txt'']
     \<and> exit_status (fst (script three_files)) \<noteq> 0"
proof -
  have cfg: "read_config three_files = Inr example_config"
    by code_simp
  have files: "discover_files (os_host three_files) (SOURCE_DIR example_config) (source_tree three_files)
      = Inr [(''./one.txt'', ''one.txt''), (''./two.txt'', ''two.txt''), (''./three.txt'', ''three.txt'')]"
    by code_simp
  have k: "1 < length (puts (snd (script three_files)))" by code_simp
  have failed: "is_http_fail (snd (puts (snd (script three_files)) ! 1))" by code_simp
  have u: "map (put_url example_config) (take (Suc 1)
        [(''./one.txt'', ''one.txt''), (''./two.txt'', ''two.txt''), (''./three.txt'', ''three.txt'')])
     = [''https://api.github.com/repos/o/r/contents/one.txt'',
        ''https://api.github.com/repos/o/r/contents/two.txt'']"
    by code_simp
  note ff = fail_fast[OF cfg files k failed]
  from ff have a: "length (puts (snd (script three_files))) = Suc 1" by (rule conjunct1)
  from ff have b: "map (\<lambda>e. url (fst e)) (puts (snd (script three_files)))
      = map (put_url example_config) (take (Suc 1)
          [(''./one.txt'', ''one.txt''), (''./two.txt'', ''two.txt''), (''./three.txt'', ''three.txt'')])"
    by (rule conjunct1[OF conjunct2])
  from ff have d: "exit_status (fst (script three_files)) \<noteq> 0"
    by (rule conjunct1[OF conjunct2[OF conjunct2[OF conjunct2]]])
  from a b[unfolded u] d show ?thesis by (intro conjI)
qed








end
